theory Spec2Isabelle
  imports Main
begin

section \<open>Admission control: the rate limiter of main.go\<close>

text \<open>
  Times are \<open>time.Time\<close> values read from \<open>time.Now()\<close>, durations are
  \<open>time.Duration\<close> values; both are counted in nanoseconds and modelled as
  \<open>int\<close>. \<open>t.After(u)\<close> is \<open>u < t\<close>, \<open>t.Before(u)\<close> is
  \<open>t < u\<close> and \<open>t.Add(d)\<close> is \<open>t + d\<close>.
\<close>

definition Second :: int where
  "Second = 1000000000"

definition rateLimit :: int where
  "rateLimit = 20"

definition trackingDuration :: int where
  "trackingDuration = 20 * Second"

definition brownListedDuration :: int where
  "brownListedDuration = 25 * Second"

text \<open>
  The two channels of the rate limiter, and what a call does to the mutex and to the
  channels, in program order. \<open>Send c ip\<close> is the send statement \<open>c <- ip\<close>;
  both channels are made without a buffer, so the statement ends when the receiver
  has taken the value. The model follows the runs in which every send is received.
\<close>

datatype chan = BlacklistCh | UnblockCh

datatype event = Lock | Unlock | Send chan string

text \<open>
  The struct \<open>rateLimiter\<close>. A Go map is a partial function; the mutex and the
  channels are represented by \<open>trace\<close>, the lock operations and sends executed
  so far. \<open>timers\<close> holds the goroutines started by
  \<open>go startTimer(ip, rl.unblockCh, brownListedDuration)\<close> that have not sent yet,
  each as the address it carries and the earliest time at which its sleep ends.
\<close>

record rateLimiter =
  requests :: "string \<Rightarrow> int list option"
  blackList :: "string \<Rightarrow> bool option"
  brownList :: "string \<Rightarrow> int option"
  trace :: "event list"
  timers :: "(string \<times> int) list"

definition newRateLimiter :: rateLimiter where
  "newRateLimiter =
     \<lparr>requests = Map.empty, blackList = Map.empty, brownList = Map.empty,
      trace = [], timers = []\<rparr>"

text \<open>\<open>rl.requests[ip]\<close>: the nil slice when the key is missing.\<close>

definition history :: "rateLimiter \<Rightarrow> string \<Rightarrow> int list" where
  "history rl ip = (case requests rl ip of None \<Rightarrow> [] | Some ts \<Rightarrow> ts)"

text \<open>\<open>rl.blackList[ip]\<close>: false when the key is missing.\<close>

definition blackListed :: "rateLimiter \<Rightarrow> string \<Rightarrow> bool" where
  "blackListed rl ip = (case blackList rl ip of None \<Rightarrow> False | Some b \<Rightarrow> b)"

text \<open>
  The loop that builds \<open>filteredRequests\<close>, written three times in the source:
  it keeps, in order, the times \<open>t\<close> with \<open>t.After(cutoff)\<close>.
\<close>

fun filteredRequests :: "int \<Rightarrow> int list \<Rightarrow> int list" where
  "filteredRequests cutoff [] = []"
| "filteredRequests cutoff (t # ts) =
     (if cutoff < t then t # filteredRequests cutoff ts else filteredRequests cutoff ts)"

text \<open>
  The common middle of \<open>sessionCheck\<close> and \<open>limitCheck\<close>: append \<open>now\<close>
  to \<open>rl.requests[ip]\<close>, then replace the slice by its filtered copy.
\<close>

definition track :: "rateLimiter \<Rightarrow> string \<Rightarrow> int \<Rightarrow> rateLimiter" where
  "track rl ip now =
     (let rl1 = rl\<lparr>requests := (requests rl)(ip \<mapsto> history rl ip @ [now])\<rparr>;
          cutoff = now - trackingDuration
      in rl1\<lparr>requests := (requests rl1)(ip \<mapsto> filteredRequests cutoff (history rl1 ip))\<rparr>)"

definition emit :: "event list \<Rightarrow> rateLimiter \<Rightarrow> rateLimiter" where
  "emit es rl = rl\<lparr>trace := trace rl @ es\<rparr>"

text \<open>
  \<open>sessionCheck\<close> reads the clock twice: \<open>t0\<close> is the reading compared with the
  brown-list entry (\<open>brownActive\<close>: an entry is found and
  \<open>time.Now().Before(endTime)\<close>), \<open>now\<close> the reading that is recorded. The deferred
  \<open>rl.mu.Unlock()\<close> runs at each return. An entry that has expired is deleted;
  when there is no entry, \<open>(brownList rl0)(ip := None)\<close> is the map itself.
\<close>

definition brownActive :: "rateLimiter \<Rightarrow> string \<Rightarrow> int \<Rightarrow> bool" where
  "brownActive rl ip t0 =
     (case brownList rl ip of None \<Rightarrow> False | Some endTime \<Rightarrow> t0 < endTime)"

definition sessionCheck :: "rateLimiter \<Rightarrow> string \<Rightarrow> int \<Rightarrow> int \<Rightarrow> bool \<times> rateLimiter" where
  "sessionCheck rl ip t0 now =
     (let rl0 = emit [Lock] rl in
      if brownActive rl0 ip t0
      then (False, emit [Unlock] rl0)
      else
        let rl1 = rl0\<lparr>brownList := (brownList rl0)(ip := None)\<rparr>;
            rl2 = track rl1 ip now
        in if rateLimit < int (length (history rl2 ip))
           then (False,
                 emit [Unlock]
                   ((emit [Send BlacklistCh ip]
                      (rl2\<lparr>brownList := (brownList rl2)(ip \<mapsto> now + brownListedDuration)\<rparr>))
                    \<lparr>timers := timers rl2 @ [(ip, now + brownListedDuration)]\<rparr>))
           else (True, emit [Unlock] rl2))"

text \<open>
  \<open>startTimer\<close>, the body of a timer goroutine: after its sleep it sends the address
  on the unblock channel and ends. It is given the address, the channel and the
  duration only, not the rate limiter. \<open>i\<close> is the position of the goroutine in
  \<open>timers\<close> and \<open>t\<close> the time of the step; before the sleep has ended there is no
  step.
\<close>

definition startTimer :: "nat \<Rightarrow> int \<Rightarrow> rateLimiter \<Rightarrow> rateLimiter option" where
  "startTimer i t rl =
     (if i < length (timers rl) \<and> snd (timers rl ! i) \<le> t
      then Some (emit [Send UnblockCh (fst (timers rl ! i))]
                  (rl\<lparr>timers := take i (timers rl) @ drop (Suc i) (timers rl)\<rparr>))
      else None)"

definition limitCheck :: "rateLimiter \<Rightarrow> string \<Rightarrow> int \<Rightarrow> bool \<times> rateLimiter" where
  "limitCheck rl ip now =
     (let rl0 = emit [Lock] rl in
      if blackListed rl0 ip then (False, emit [Unlock] rl0)
      else
        let rl2 = track rl0 ip now
        in if rateLimit < int (length (history rl2 ip))
           then (False,
                 emit [Send BlacklistCh ip, Unlock]
                   (rl2\<lparr>blackList := (blackList rl2)(ip \<mapsto> True)\<rparr>))
           else (True, emit [Unlock] rl2))"

text \<open>
  One pass of the loop of \<open>cleanUp\<close>. The clock is read once for every key of the
  map, so \<open>now\<close> gives the reading for each address.
\<close>

definition cleanUp :: "(string \<Rightarrow> int) \<Rightarrow> rateLimiter \<Rightarrow> rateLimiter" where
  "cleanUp now rl =
     emit [Lock, Unlock]
       (rl\<lparr>requests := (\<lambda>ip. case requests rl ip of None \<Rightarrow> None
               | Some ts \<Rightarrow> Some (filteredRequests (now ip - trackingDuration) ts))\<rparr>)"

text \<open>
  The calls that change a rate limiter: the two checks made by the request handler,
  a pass of \<open>cleanUp\<close>, and a step of a timer goroutine (which leaves the state
  as it is while the goroutine still sleeps). \<open>run\<close> makes the calls in order
  and collects the answers of the checks.
\<close>

datatype call =
    LimitCheck string int
  | SessionCheck string int int
  | CleanUp "string \<Rightarrow> int"
  | StartTimer nat int

fun step :: "call \<Rightarrow> rateLimiter \<Rightarrow> bool list \<times> rateLimiter" where
  "step (LimitCheck ip now) rl = (let (b, rl') = limitCheck rl ip now in ([b], rl'))"
| "step (SessionCheck ip t0 now) rl = (let (b, rl') = sessionCheck rl ip t0 now in ([b], rl'))"
| "step (CleanUp now) rl = ([], cleanUp now rl)"
| "step (StartTimer i t) rl = ([], case startTimer i t rl of None \<Rightarrow> rl | Some rl' \<Rightarrow> rl')"

fun run :: "rateLimiter \<Rightarrow> call list \<Rightarrow> bool list \<times> rateLimiter" where
  "run rl [] = ([], rl)"
| "run rl (c # cs) =
     (let (bs, rl') = step c rl; (bs', rl'') = run rl' cs in (bs @ bs', rl''))"

section \<open>Load balancer: LoadB/lb.go\<close>

text \<open>
  Go's \<open>int\<close> is taken as the 64-bit signed integer: \<open>x++\<close> is
  \<open>wrap64 (x + 1)\<close>. Go's \<open>a % b\<close> truncates towards zero, so its sign is
  that of \<open>a\<close>; the divisor here is a length, hence not negative.
\<close>

definition wrap64 :: "int \<Rightarrow> int" where
  "wrap64 x = (x + 2 ^ 63) mod 2 ^ 64 - 2 ^ 63"

definition go_rem :: "int \<Rightarrow> int \<Rightarrow> int" where
  "go_rem a b = (if 0 \<le> a then a mod b else - ((- a) mod b))"

datatype error = DivideByZero | IndexOutOfRange | NilDereference

text \<open>
  What a call gives: a value, a run-time panic, or no return within the number of
  loop iterations that the caller allows (the fuel).
\<close>

datatype 'a result = Returns 'a | Panics error | NoReturn

text \<open>
  The interface \<open>Server\<close>: the record holds what \<open>Address()\<close>, \<open>IsAlive()\<close>
  and \<open>ActiveConn()\<close> return for an object. The load balancer holds pointers to
  servers; \<open>ref\<close> is such a pointer and the store maps it to the object. The nil
  server is \<open>None\<close>. \<open>NewServer\<close> builds a \<open>SimpleServer\<close>, whose
  \<open>IsAlive\<close> is constantly true (its panic on an address that \<open>url.Parse\<close>
  rejects is not modelled).
\<close>

record Server =
  Address :: string
  IsAlive :: bool
  ActiveConn :: int

type_synonym ref = nat

type_synonym store = "ref \<Rightarrow> Server"

definition NewServer :: "string \<Rightarrow> Server" where
  "NewServer addr = \<lparr>Address = addr, IsAlive = True, ActiveConn = 0\<rparr>"

definition IncActiveConn :: "store \<Rightarrow> ref \<Rightarrow> store" where
  "IncActiveConn st s = st(s := (st s)\<lparr>ActiveConn := wrap64 (ActiveConn (st s) + 1)\<rparr>)"

definition DecActiveConn :: "store \<Rightarrow> ref \<Rightarrow> store" where
  "DecActiveConn st s = st(s := (st s)\<lparr>ActiveConn := wrap64 (ActiveConn (st s) - 1)\<rparr>)"

record Loadbalancer =
  Port :: string
  Servers :: "ref list"
  RoundRobinCount :: int
  SessionTable :: "string \<Rightarrow> ref option"
  Algorithm :: string

definition NewLoadbalancer :: "string \<Rightarrow> ref list \<Rightarrow> string \<Rightarrow> Loadbalancer" where
  "NewLoadbalancer p servers algorithm =
     \<lparr>Port = p, Servers = servers, RoundRobinCount = 0, SessionTable = Map.empty,
      Algorithm = algorithm\<rparr>"

text \<open>
  \<open>lb.Servers[lb.RoundRobinCount%len(lb.Servers)]\<close>: a division by zero on the
  empty pool, an index out of range when the remainder is negative.
\<close>

definition serverAt :: "Loadbalancer \<Rightarrow> error + ref" where
  "serverAt lb =
     (let n = int (length (Servers lb)) in
      if n = 0 then Inl DivideByZero
      else
        let i = go_rem (RoundRobinCount lb) n in
        if i < 0 then Inl IndexOutOfRange else Inr (Servers lb ! nat i))"

definition advance :: "Loadbalancer \<Rightarrow> Loadbalancer" where
  "advance lb = lb\<lparr>RoundRobinCount := wrap64 (RoundRobinCount lb + 1)\<rparr>"

text \<open>
  The loop \<open>for !server.IsAlive()\<close> of \<open>GetNextAvailableServer\<close>, entered with
  the server read last, and the two statements after it. The source puts no bound on
  the loop; the first argument is the number of iterations after which the model
  stops following it and answers \<open>NoReturn\<close>.
\<close>

fun probe :: "nat \<Rightarrow> store \<Rightarrow> Loadbalancer \<Rightarrow> ref \<Rightarrow> ref result \<times> Loadbalancer" where
  "probe 0 st lb server =
     (if IsAlive (st server) then (Returns server, advance lb) else (NoReturn, lb))"
| "probe (Suc fuel) st lb server =
     (if IsAlive (st server) then (Returns server, advance lb)
      else
        let lb' = advance lb in
        case serverAt lb' of
          Inl e \<Rightarrow> (Panics e, lb')
        | Inr server' \<Rightarrow> probe fuel st lb' server')"

definition GetNextAvailableServer ::
    "nat \<Rightarrow> store \<Rightarrow> Loadbalancer \<Rightarrow> ref result \<times> Loadbalancer" where
  "GetNextAvailableServer fuel st lb =
     (case serverAt lb of
        Inl e \<Rightarrow> (Panics e, lb)
      | Inr server \<Rightarrow> probe fuel st lb server)"

text \<open>
  The loop of \<open>GetLeastConnServer\<close> over \<open>lb.Servers\<close>, with the variable
  \<open>selected\<close>, which starts as nil.
\<close>

fun leastConn :: "store \<Rightarrow> ref option \<Rightarrow> ref list \<Rightarrow> ref option" where
  "leastConn st selected [] = selected"
| "leastConn st selected (server # rest) =
     (if \<not> IsAlive (st server) then leastConn st selected rest
      else
        case selected of
          None \<Rightarrow> leastConn st (Some server) rest
        | Some sel \<Rightarrow>
            if ActiveConn (st server) < ActiveConn (st sel)
            then leastConn st (Some server) rest
            else leastConn st selected rest)"

definition GetLeastConnServer :: "store \<Rightarrow> Loadbalancer \<Rightarrow> ref option" where
  "GetLeastConnServer st lb = leastConn st None (Servers lb)"

text \<open>
  \<open>ServeProxy\<close> for a request whose \<open>Session-ID\<close> header is \<open>sessionID\<close>
  (the empty string when the header is absent). \<open>selectTarget\<close> is the selection of
  \<open>targetServer\<close>, which is nil when the algorithm is neither \<open>lc\<close> nor
  \<open>rr\<close>. Then \<open>targetServer.IncActiveConn()\<close> runs, a nil dereference on the
  nil server, and the request is handed to \<open>targetServer.Serve\<close>, whose transport
  is outside the model: \<open>Returns s\<close> says that the request was forwarded to
  \<open>s\<close>. The statements after \<open>Serve\<close> are commented out in the source.
\<close>

definition withSome :: "ref result \<times> Loadbalancer \<Rightarrow> ref option result \<times> Loadbalancer" where
  "withSome r =
     (case r of
        (Returns s, lb) \<Rightarrow> (Returns (Some s), lb)
      | (Panics e, lb) \<Rightarrow> (Panics e, lb)
      | (NoReturn, lb) \<Rightarrow> (NoReturn, lb))"

definition selectTarget ::
    "nat \<Rightarrow> string \<Rightarrow> store \<Rightarrow> Loadbalancer \<Rightarrow> ref option result \<times> Loadbalancer" where
  "selectTarget fuel sessionID st lb =
     (if sessionID \<noteq> ''''
      then
        (case SessionTable lb sessionID of
           Some s \<Rightarrow> (Returns (Some s), lb)
         | None \<Rightarrow>
             (case withSome (GetNextAvailableServer fuel st lb) of
                (Returns targetServer, lb') \<Rightarrow>
                  (Returns targetServer,
                   lb'\<lparr>SessionTable := (SessionTable lb')(sessionID := targetServer)\<rparr>)
              | (Panics e, lb') \<Rightarrow> (Panics e, lb')
              | (NoReturn, lb') \<Rightarrow> (NoReturn, lb')))
      else if Algorithm lb = ''lc'' then (Returns (GetLeastConnServer st lb), lb)
      else if Algorithm lb = ''rr'' then withSome (GetNextAvailableServer fuel st lb)
      else (Returns None, lb))"

definition ServeProxy ::
    "nat \<Rightarrow> string \<Rightarrow> store \<times> Loadbalancer \<Rightarrow> ref result \<times> store \<times> Loadbalancer" where
  "ServeProxy fuel sessionID w =
     (case w of (st, lb) \<Rightarrow>
        (case selectTarget fuel sessionID st lb of
           (Returns None, lb') \<Rightarrow> (Panics NilDereference, st, lb')
         | (Returns (Some targetServer), lb') \<Rightarrow>
             (Returns targetServer, IncActiveConn st targetServer, lb')
         | (Panics e, lb') \<Rightarrow> (Panics e, st, lb')
         | (NoReturn, lb') \<Rightarrow> (NoReturn, st, lb')))"

text \<open>
  Requests served one after the other, each with its fuel and its session header.
\<close>

fun serveAll :: "(nat \<times> string) list \<Rightarrow> store \<times> Loadbalancer \<Rightarrow> store \<times> Loadbalancer" where
  "serveAll [] w = w"
| "serveAll ((fuel, sessionID) # rs) w = serveAll rs (snd (ServeProxy fuel sessionID w))"

text \<open>The pool and the load balancer that \<open>main\<close> builds.\<close>

definition main_store :: store where
  "main_store =
     (\<lambda>r. if r = 0 then NewServer ''https://www.youtube.com/''
          else if r = 1 then NewServer ''https://wasmcloud.com/''
          else NewServer ''https://x.com/'')"

definition main_lb :: Loadbalancer where
  "main_lb = NewLoadbalancer ''8080'' [0, 1, 2] ''lc''"


section \<open>Predicates used in the statements\<close>

text \<open>
  \<open>quiet ip e c\<close>: the call \<open>c\<close> is not a \<open>sessionCheck\<close> for \<open>ip\<close>
  whose first clock reading is at or after \<open>e\<close>.
\<close>

definition quiet :: "string \<Rightarrow> int \<Rightarrow> call \<Rightarrow> bool" where
  "quiet ip e c = (case c of SessionCheck ip' t0 now \<Rightarrow> ip' = ip \<longrightarrow> t0 < e | _ \<Rightarrow> True)"

text \<open>
  \<open>lockedSends held es\<close>: the sends among the events \<open>es\<close> that are executed
  while the mutex is held, \<open>held\<close> saying whether it is held at the start.
\<close>

fun lockedSends :: "bool \<Rightarrow> event list \<Rightarrow> (chan \<times> string) list" where
  "lockedSends held [] = []"
| "lockedSends held (Lock # es) = lockedSends True es"
| "lockedSends held (Unlock # es) = lockedSends False es"
| "lockedSends held (Send c ip # es) = (if held then [(c, ip)] else []) @ lockedSends held es"

text \<open>
  \<open>fromClient ip T c\<close>: the call \<open>c\<close> is a check of a request from \<open>ip\<close>,
  with or without session, recorded at a time within 5 seconds from \<open>T\<close>.
\<close>

definition fromClient :: "string \<Rightarrow> int \<Rightarrow> call \<Rightarrow> bool" where
  "fromClient ip T c =
     (case c of
        LimitCheck ip' now \<Rightarrow> ip' = ip \<and> T \<le> now \<and> now \<le> T + 5 * Second
      | SessionCheck ip' t0 now \<Rightarrow> ip' = ip \<and> T \<le> now \<and> now \<le> T + 5 * Second
      | CleanUp f \<Rightarrow> False
      | StartTimer i t \<Rightarrow> False)"

text \<open>
  \<open>requestTimes ip cs\<close>: the times \<open>now\<close> of the checks for \<open>ip\<close> among the
  calls \<open>cs\<close>, with or without session, in order. \<open>readings ip cs\<close>: the clock
  readings among \<open>cs\<close> that are compared with the recorded times of \<open>ip\<close>,
  those of its checks and those of \<open>cleanUp\<close> for its key. \<open>answersFor ip rl cs\<close>:
  the answers that the checks for \<open>ip\<close> get when \<open>cs\<close> runs from \<open>rl\<close>.
\<close>

fun requestTime :: "string \<Rightarrow> call \<Rightarrow> int list" where
  "requestTime ip (LimitCheck ip' now) = (if ip' = ip then [now] else [])"
| "requestTime ip (SessionCheck ip' t0 now) = (if ip' = ip then [now] else [])"
| "requestTime ip (CleanUp f) = []"
| "requestTime ip (StartTimer i t) = []"

definition requestTimes :: "string \<Rightarrow> call list \<Rightarrow> int list" where
  "requestTimes ip cs = concat (map (requestTime ip) cs)"

fun reading :: "string \<Rightarrow> call \<Rightarrow> int list" where
  "reading ip (LimitCheck ip' now) = (if ip' = ip then [now] else [])"
| "reading ip (SessionCheck ip' t0 now) = (if ip' = ip then [now] else [])"
| "reading ip (CleanUp f) = [f ip]"
| "reading ip (StartTimer i t) = []"

definition readings :: "string \<Rightarrow> call list \<Rightarrow> int list" where
  "readings ip cs = concat (map (reading ip) cs)"

fun answersFor :: "string \<Rightarrow> rateLimiter \<Rightarrow> call list \<Rightarrow> bool list" where
  "answersFor ip rl [] = []"
| "answersFor ip rl (c # cs) =
     (if requestTime ip c = [] then [] else fst (step c rl)) @ answersFor ip (snd (step c rl)) cs"

text \<open>
  \<open>tracked ip pre rl'\<close>: the address has no block entry in \<open>rl'\<close>, and for every
  time not before the readings of \<open>pre\<close> the recorded times within the window
  before it are the request times of \<open>pre\<close> within that window.
\<close>

definition tracked :: "string \<Rightarrow> call list \<Rightarrow> rateLimiter \<Rightarrow> bool" where
  "tracked ip pre rl' \<longleftrightarrow>
     \<not> blackListed rl' ip \<and> brownList rl' ip = None \<and>
     (\<forall>m. (\<forall>r \<in> set (readings ip pre). r \<le> m) \<longrightarrow>
        filter (\<lambda>t. m - trackingDuration < t) (history rl' ip) =
        filter (\<lambda>t. m - trackingDuration < t) (requestTimes ip pre))"

section \<open>Facts about the rate limiter\<close>

lemma filteredRequests_filter: "filteredRequests c ts = filter (\<lambda>t. c < t) ts"
  by (induction ts) auto

lemma filteredRequests_append:
  "filteredRequests c (xs @ ys) = filteredRequests c xs @ filteredRequests c ys"
  by (induction xs) auto

lemma filteredRequests_all: "\<forall>t \<in> set ts. c < t \<Longrightarrow> filteredRequests c ts = ts"
  by (induction ts) auto

lemma emit_fields [simp]:
  "requests (emit es rl) = requests rl"
  "blackList (emit es rl) = blackList rl"
  "brownList (emit es rl) = brownList rl"
  "timers (emit es rl) = timers rl"
  "trace (emit es rl) = trace rl @ es"
  by (simp_all add: emit_def)

lemma history_emit [simp]: "history (emit es rl) = history rl"
  by (simp add: history_def fun_eq_iff)

lemma blackListed_emit [simp]: "blackListed (emit es rl) = blackListed rl"
  by (simp add: blackListed_def fun_eq_iff)

lemma track_fields [simp]:
  "blackList (track rl ip now) = blackList rl"
  "brownList (track rl ip now) = brownList rl"
  "timers (track rl ip now) = timers rl"
  "trace (track rl ip now) = trace rl"
  by (simp_all add: track_def Let_def)

lemma history_track:
  "history (track rl ip now) ip' =
     (if ip' = ip then filteredRequests (now - trackingDuration) (history rl ip @ [now])
      else history rl ip')"
  by (simp add: track_def Let_def history_def)

lemma blackListed_track [simp]: "blackListed (track rl ip now) = blackListed rl"
  by (simp add: blackListed_def fun_eq_iff)

lemma history_other_fields [simp]:
  "history (rl\<lparr>blackList := bl\<rparr>) = history rl"
  "history (rl\<lparr>brownList := br\<rparr>) = history rl"
  "history (rl\<lparr>timers := tm\<rparr>) = history rl"
  "history (rl\<lparr>trace := tr\<rparr>) = history rl"
  by (simp_all add: history_def fun_eq_iff)

lemma blackListed_other_fields [simp]:
  "blackListed (rl\<lparr>requests := rq\<rparr>) = blackListed rl"
  "blackListed (rl\<lparr>brownList := br\<rparr>) = blackListed rl"
  "blackListed (rl\<lparr>timers := tm\<rparr>) = blackListed rl"
  "blackListed (rl\<lparr>trace := tr\<rparr>) = blackListed rl"
  by (simp_all add: blackListed_def fun_eq_iff)

lemma fst_limitCheck:
  "fst (limitCheck rl ip now) =
     (\<not> blackListed rl ip \<and>
      int (length (filteredRequests (now - trackingDuration) (history rl ip @ [now]))) \<le> rateLimit)"
  by (simp add: limitCheck_def Let_def history_track)

lemma history_limitCheck:
  "history (snd (limitCheck rl ip now)) ip' =
     (if ip' = ip \<and> \<not> blackListed rl ip
      then filteredRequests (now - trackingDuration) (history rl ip @ [now])
      else history rl ip')"
  by (simp add: limitCheck_def Let_def history_track)

lemma blackListed_limitCheck:
  "blackListed (snd (limitCheck rl ip now)) ip' =
     (blackListed rl ip' \<or>
      (ip' = ip \<and> rateLimit <
         int (length (filteredRequests (now - trackingDuration) (history rl ip @ [now])))))"
  by (auto simp add: limitCheck_def Let_def history_track blackListed_def)

lemma brownList_limitCheck [simp]: "brownList (snd (limitCheck rl ip now)) = brownList rl"
  by (simp add: limitCheck_def Let_def)

lemma timers_limitCheck [simp]: "timers (snd (limitCheck rl ip now)) = timers rl"
  by (simp add: limitCheck_def Let_def)

lemma brownActive_emit [simp]: "brownActive (emit es rl) = brownActive rl"
  by (simp add: brownActive_def fun_eq_iff)

lemma fst_sessionCheck:
  "fst (sessionCheck rl ip t0 now) =
     (\<not> brownActive rl ip t0 \<and>
      int (length (filteredRequests (now - trackingDuration) (history rl ip @ [now]))) \<le> rateLimit)"
  by (simp add: sessionCheck_def Let_def history_track)

lemma history_sessionCheck:
  "history (snd (sessionCheck rl ip t0 now)) ip' =
     (if ip' = ip \<and> \<not> brownActive rl ip t0
      then filteredRequests (now - trackingDuration) (history rl ip @ [now])
      else history rl ip')"
  by (simp add: sessionCheck_def Let_def history_track)

lemma blackListed_sessionCheck [simp]:
  "blackListed (snd (sessionCheck rl ip t0 now)) = blackListed rl"
  by (simp add: sessionCheck_def Let_def)

lemma blackList_sessionCheck [simp]:
  "blackList (snd (sessionCheck rl ip t0 now)) = blackList rl"
  by (simp add: sessionCheck_def Let_def)

lemma brownList_sessionCheck:
  "brownList (snd (sessionCheck rl ip t0 now)) ip' =
     (if ip' \<noteq> ip \<or> brownActive rl ip t0 then brownList rl ip'
      else if rateLimit <
              int (length (filteredRequests (now - trackingDuration) (history rl ip @ [now])))
           then Some (now + brownListedDuration)
           else None)"
  by (simp add: sessionCheck_def Let_def history_track)

lemma timers_sessionCheck:
  "timers (snd (sessionCheck rl ip t0 now)) =
     (if \<not> brownActive rl ip t0 \<and>
         rateLimit < int (length (filteredRequests (now - trackingDuration) (history rl ip @ [now])))
      then timers rl @ [(ip, now + brownListedDuration)]
      else timers rl)"
  by (simp add: sessionCheck_def Let_def history_track)

lemma window_keeps_all:
  assumes "\<forall>t \<in> set h. T \<le> t" and "T \<le> now" and "now \<le> T + 5 * Second"
  shows "filteredRequests (now - trackingDuration) (h @ [now]) = h @ [now]"
proof -
  have "\<forall>t \<in> set (h @ [now]). now - trackingDuration < t"
    using assms by (auto simp: trackingDuration_def Second_def)
  then show ?thesis by (rule filteredRequests_all)
qed

lemma run_LimitCheck:
  "fst (run rl (LimitCheck ip t # cs)) =
     fst (limitCheck rl ip t) # fst (run (snd (limitCheck rl ip t)) cs)"
  "snd (run rl (LimitCheck ip t # cs)) = snd (run (snd (limitCheck rl ip t)) cs)"
  by (simp_all add: split_beta)

lemma run_SessionCheck:
  "fst (run rl (SessionCheck ip t0 t # cs)) =
     fst (sessionCheck rl ip t0 t) # fst (run (snd (sessionCheck rl ip t0 t)) cs)"
  "snd (run rl (SessionCheck ip t0 t # cs)) = snd (run (snd (sessionCheck rl ip t0 t)) cs)"
  by (simp_all add: split_beta)

lemma run_limitChecks:
  assumes "\<forall>t \<in> set (history rl ip @ ts). T \<le> t \<and> t \<le> T + 5 * Second"
    and "blackListed rl ip \<longleftrightarrow> rateLimit < int (length (history rl ip))"
  shows "fst (run rl (map (LimitCheck ip) ts)) =
           map (\<lambda>k. int (length (history rl ip) + k) < rateLimit) [0..<length ts]"
  using assms
proof (induction ts arbitrary: rl)
  case Nil
  then show ?case by simp
next
  case (Cons t ts)
  let ?rl' = "snd (limitCheck rl ip t)"
  note run = run_LimitCheck(1)
  show ?case
  proof (cases "blackListed rl ip")
    case True
    then have h: "history ?rl' ip = history rl ip" and b: "blackListed ?rl' ip"
      by (simp_all add: history_limitCheck blackListed_limitCheck)
    have "fst (run ?rl' (map (LimitCheck ip) ts)) =
            map (\<lambda>k. int (length (history ?rl' ip) + k) < rateLimit) [0..<length ts]"
      using Cons.prems True by (intro Cons.IH) (auto simp: h b)
    with True Cons.prems(2) show ?thesis
      by (simp add: run fst_limitCheck h map_upt_Suc del: upt_Suc run.simps)
  next
    case False
    have w: "filteredRequests (t - trackingDuration) (history rl ip @ [t]) = history rl ip @ [t]"
      using Cons.prems(1) by (intro window_keeps_all[of _ T]) auto
    have h: "history ?rl' ip = history rl ip @ [t]"
      using False by (simp add: history_limitCheck w)
    have b: "blackListed ?rl' ip \<longleftrightarrow> rateLimit < int (length (history ?rl' ip))"
      using False by (simp add: blackListed_limitCheck w h)
    have "fst (run ?rl' (map (LimitCheck ip) ts)) =
            map (\<lambda>k. int (length (history ?rl' ip) + k) < rateLimit) [0..<length ts]"
      using Cons.prems(1) b by (intro Cons.IH) (auto simp: h)
    with False show ?thesis
      by (auto simp add: run fst_limitCheck h w map_upt_Suc simp del: upt_Suc run.simps)
  qed
qed

lemma brownActive_other_fields [simp]:
  "brownActive (rl\<lparr>requests := rq\<rparr>) = brownActive rl"
  "brownActive (rl\<lparr>blackList := bl\<rparr>) = brownActive rl"
  "brownActive (rl\<lparr>timers := tm\<rparr>) = brownActive rl"
  "brownActive (rl\<lparr>trace := tr\<rparr>) = brownActive rl"
  by (simp_all add: brownActive_def fun_eq_iff)

lemma trace_limitCheck:
  "trace (snd (limitCheck rl ip now)) =
     trace rl @
     (if \<not> blackListed rl ip \<and>
         rateLimit < int (length (filteredRequests (now - trackingDuration) (history rl ip @ [now])))
      then [Lock, Send BlacklistCh ip, Unlock] else [Lock, Unlock])"
  by (simp add: limitCheck_def Let_def history_track)

lemma trace_sessionCheck:
  "trace (snd (sessionCheck rl ip t0 now)) =
     trace rl @
     (if \<not> brownActive rl ip t0 \<and>
         rateLimit < int (length (filteredRequests (now - trackingDuration) (history rl ip @ [now])))
      then [Lock, Send BlacklistCh ip, Unlock] else [Lock, Unlock])"
  by (simp add: sessionCheck_def Let_def history_track)

lemma cleanUp_fields [simp]:
  "blackList (cleanUp f rl) = blackList rl"
  "brownList (cleanUp f rl) = brownList rl"
  "timers (cleanUp f rl) = timers rl"
  "trace (cleanUp f rl) = trace rl @ [Lock, Unlock]"
  by (simp_all add: cleanUp_def)

lemma history_cleanUp:
  "history (cleanUp f rl) ip = filteredRequests (f ip - trackingDuration) (history rl ip)"
  by (simp add: cleanUp_def history_def split: option.splits)

lemma blackListed_cleanUp [simp]: "blackListed (cleanUp f rl) = blackListed rl"
  by (simp add: blackListed_def fun_eq_iff)

lemma startTimer_fields:
  assumes "startTimer i t rl = Some rl'"
  shows "requests rl' = requests rl" and "blackList rl' = blackList rl"
    and "brownList rl' = brownList rl"
    and "trace rl' = trace rl @ [Send UnblockCh (fst (timers rl ! i))]"
    and "timers rl' = take i (timers rl) @ drop (Suc i) (timers rl)"
    and "i < length (timers rl)" and "snd (timers rl ! i) \<le> t"
  using assms by (auto simp: startTimer_def split: if_splits)

lemma blackList_step:
  "blackList rl ip = Some True \<Longrightarrow> blackList (snd (step c rl)) ip = Some True"
proof (cases c)
  case (LimitCheck ip' now)
  then show "blackList rl ip = Some True \<Longrightarrow> ?thesis"
    by (simp add: split_beta limitCheck_def Let_def)
next
  case (SessionCheck ip' t0 now)
  then show "blackList rl ip = Some True \<Longrightarrow> ?thesis" by (simp add: split_beta)
next
  case (CleanUp f)
  then show "blackList rl ip = Some True \<Longrightarrow> ?thesis" by simp
next
  case (StartTimer i t)
  then show "blackList rl ip = Some True \<Longrightarrow> ?thesis"
    by (auto simp: startTimer_fields split: option.splits)
qed

lemma snd_run_Cons: "snd (run rl (c # cs)) = snd (run (snd (step c rl)) cs)"
  by (simp add: split_beta)

lemma blackList_run:
  "blackList rl ip = Some True \<Longrightarrow> blackList (snd (run rl cs)) ip = Some True"
proof (induction cs arbitrary: rl)
  case Nil
  then show ?case by simp
next
  case (Cons c cs)
  then show ?case by (simp only: snd_run_Cons blackList_step)
qed

lemma blackList_limitCheck_over:
  assumes "\<not> blackListed rl ip"
    and "rateLimit < int (length (filteredRequests (now - trackingDuration) (history rl ip @ [now])))"
  shows "blackList (snd (limitCheck rl ip now)) ip = Some True"
  using assms by (simp add: limitCheck_def Let_def history_track)

text \<open>
  Claim C3. When \<open>limitCheck\<close> finds the window count of an address above
  \<open>rateLimit\<close>, it rejects the request and blacklists the address. After any
  further calls of \<open>limitCheck\<close>, \<open>sessionCheck\<close>, \<open>cleanUp\<close> and steps of
  timer goroutines, for any addresses and at any times, the entry of the address in
  \<open>blackList\<close> is still true and \<open>limitCheck\<close> rejects the address.
\<close>

theorem blackList_terminal:
  assumes "\<not> blackListed rl ip"
    and "rateLimit < int (length (filteredRequests (now - trackingDuration) (history rl ip @ [now])))"
  shows "\<not> fst (limitCheck rl ip now) \<and>
         blackList (snd (run (snd (limitCheck rl ip now)) cs)) ip = Some True \<and>
         \<not> fst (limitCheck (snd (run (snd (limitCheck rl ip now)) cs)) ip now')"
proof -
  have "blackList (snd (run (snd (limitCheck rl ip now)) cs)) ip = Some True"
    using assms by (intro blackList_run blackList_limitCheck_over)
  then show ?thesis using assms by (simp add: fst_limitCheck blackListed_def)
qed

theorem blackList_terminal_witness:
  "blackList
     (snd (run (snd (limitCheck
                  (newRateLimiter\<lparr>requests := [''10.0.0.7'' \<mapsto>
                     [1, 2, 3, 4, 5, 6, 7, 8, 9, 10, 11, 12, 13, 14, 15, 16, 17, 18, 19, 20]]\<rparr>)
                  ''10.0.0.7'' 21))
        [SessionCheck ''10.0.0.7'' 30 31, CleanUp (\<lambda>ip. 90000000000), StartTimer 0 50,
         LimitCheck ''10.0.0.7'' 90000000001]))
     ''10.0.0.7'' = Some True \<and>
   \<not> fst (limitCheck
     (snd (run (snd (limitCheck
                  (newRateLimiter\<lparr>requests := [''10.0.0.7'' \<mapsto>
                     [1, 2, 3, 4, 5, 6, 7, 8, 9, 10, 11, 12, 13, 14, 15, 16, 17, 18, 19, 20]]\<rparr>)
                  ''10.0.0.7'' 21))
        [SessionCheck ''10.0.0.7'' 30 31, CleanUp (\<lambda>ip. 90000000000), StartTimer 0 50,
         LimitCheck ''10.0.0.7'' 90000000001]))
     ''10.0.0.7'' 90000000002)"
proof -
  let ?rl = "newRateLimiter\<lparr>requests := [''10.0.0.7'' \<mapsto>
                     [1, 2, 3, 4, 5, 6, 7, 8, 9, 10, 11, 12, 13, 14, 15, 16, 17, 18, 19, 20]]\<rparr>"
  have a: "\<not> blackListed ?rl ''10.0.0.7''"
    by (simp add: newRateLimiter_def blackListed_def)
  have b: "rateLimit < int (length (filteredRequests (21 - trackingDuration)
             (history ?rl ''10.0.0.7'' @ [21])))"
    by (simp add: history_def rateLimit_def trackingDuration_def Second_def)
  show ?thesis
    using blackList_terminal [OF a b] by (rule conjunct2)
qed

lemma brownList_step:
  assumes "brownList rl ip = Some e" and "quiet ip e c"
  shows "brownList (snd (step c rl)) ip = Some e"
proof (cases c)
  case (LimitCheck ip' now)
  with assms show ?thesis by (simp add: split_beta)
next
  case (SessionCheck ip' t0 now)
  with assms show ?thesis
    by (auto simp: split_beta brownList_sessionCheck brownActive_def quiet_def)
next
  case (CleanUp f)
  with assms show ?thesis by simp
next
  case (StartTimer i t)
  with assms show ?thesis by (auto simp: startTimer_fields split: option.splits)
qed

lemma brownList_run:
  assumes "brownList rl ip = Some e" and "\<forall>c \<in> set cs. quiet ip e c"
  shows "brownList (snd (run rl cs)) ip = Some e"
  using assms
proof (induction cs arbitrary: rl)
  case Nil
  then show ?case by simp
next
  case (Cons c cs)
  then show ?case by (simp only: snd_run_Cons) (simp add: brownList_step)
qed

lemma window_after_pause:
  assumes "\<forall>t \<in> set h. t + trackingDuration \<le> now"
  shows "filteredRequests (now - trackingDuration) (h @ [now]) = [now]"
proof -
  have "filteredRequests (now - trackingDuration) h = []"
    using assms by (induction h) auto
  then show ?thesis by (simp add: filteredRequests_append trackingDuration_def Second_def)
qed

text \<open>
  Claim C2. When \<open>sessionCheck\<close> finds the window count of an address above
  \<open>rateLimit\<close>, it rejects the request, enters the address in \<open>brownList\<close>
  with the expiry \<open>now + brownListedDuration\<close>, sends the address on the block
  channel and starts one timer goroutine for it. After any further calls in which no
  \<open>sessionCheck\<close> for the address reads a time at or after the expiry, the entry
  is unchanged, and a \<open>sessionCheck\<close> for the address that reads a time before
  the expiry is rejected. One that reads a time at or after the expiry is decided by
  the window count alone, and is admitted when no request of the address was recorded
  after the one that caused the entry. The timer goroutine has no step before the
  expiry; its one step sends the address on the unblock channel once and ends it.
\<close>

theorem sessionCheck_brownList:
  assumes "\<not> brownActive rl ip t0"
    and "rateLimit < int (length (filteredRequests (now - trackingDuration) (history rl ip @ [now])))"
    and "\<forall>c \<in> set cs. quiet ip (now + brownListedDuration) c"
    and "rl' = snd (sessionCheck rl ip t0 now)"
    and "rl'' = snd (run rl' cs)"
    and "expiry = now + brownListedDuration"
  shows "\<not> fst (sessionCheck rl ip t0 now) \<and>
         brownList rl' ip = Some expiry \<and>
         timers rl' = timers rl @ [(ip, expiry)] \<and>
         trace rl' = trace rl @ [Lock, Send BlacklistCh ip, Unlock] \<and>
         brownList rl'' ip = Some expiry \<and>
         (t1 < expiry \<longrightarrow> \<not> fst (sessionCheck rl'' ip t1 now1)) \<and>
         (expiry \<le> t1 \<longrightarrow>
            fst (sessionCheck rl'' ip t1 now1) =
              (int (length (filteredRequests (now1 - trackingDuration) (history rl'' ip @ [now1])))
                 \<le> rateLimit)) \<and>
         (expiry \<le> t1 \<and> t1 \<le> now1 \<and> (\<forall>t \<in> set (history rl'' ip). t \<le> now) \<longrightarrow>
            fst (sessionCheck rl'' ip t1 now1)) \<and>
         startTimer (length (timers rl)) t rl' =
           (if expiry \<le> t
            then Some (rl'\<lparr>timers := timers rl, trace := trace rl' @ [Send UnblockCh ip]\<rparr>)
            else None)"
proof -
  have 1: "\<not> fst (sessionCheck rl ip t0 now)"
    using assms(1,2) by (simp add: fst_sessionCheck)
  have 2: "brownList rl' ip = Some expiry"
    using assms(1,2,4,6) by (simp add: brownList_sessionCheck)
  have 3: "timers rl' = timers rl @ [(ip, expiry)]"
    using assms(1,2,4,6) by (simp add: timers_sessionCheck)
  have 4: "trace rl' = trace rl @ [Lock, Send BlacklistCh ip, Unlock]"
    using assms(1,2,4) by (simp add: trace_sessionCheck)
  have 5: "brownList rl'' ip = Some expiry"
    unfolding assms(5) using 2 assms(3) by (intro brownList_run) (simp_all add: assms(6))
  have 6: "\<not> fst (sessionCheck rl'' ip t1 now1)" if "t1 < expiry"
    using 5 that by (simp add: fst_sessionCheck brownActive_def)
  have 7: "fst (sessionCheck rl'' ip t1 now1) =
             (int (length (filteredRequests (now1 - trackingDuration) (history rl'' ip @ [now1])))
                \<le> rateLimit)" if "expiry \<le> t1"
    using 5 that by (simp add: fst_sessionCheck brownActive_def)
  have 8: "fst (sessionCheck rl'' ip t1 now1)"
    if "expiry \<le> t1 \<and> t1 \<le> now1 \<and> (\<forall>t \<in> set (history rl'' ip). t \<le> now)"
  proof -
    have "\<forall>t \<in> set (history rl'' ip). t + trackingDuration \<le> now1"
      using that by (auto simp: assms(6) trackingDuration_def brownListedDuration_def Second_def)
    then have "filteredRequests (now1 - trackingDuration) (history rl'' ip @ [now1]) = [now1]"
      by (rule window_after_pause)
    with 7 that show ?thesis by (simp add: rateLimit_def)
  qed
  have 9: "startTimer (length (timers rl)) t rl' =
           (if expiry \<le> t
            then Some (rl'\<lparr>timers := timers rl, trace := trace rl' @ [Send UnblockCh ip]\<rparr>)
            else None)"
    by (simp add: startTimer_def 3 emit_def)
  from 1 2 3 4 5 6 7 8 9 show ?thesis by blast
qed

theorem sessionCheck_brownList_witness:
  "let rl = newRateLimiter\<lparr>requests := [''10.0.0.7'' \<mapsto>
              [1, 2, 3, 4, 5, 6, 7, 8, 9, 10, 11, 12, 13, 14, 15, 16, 17, 18, 19, 20]]\<rparr>;
       rl' = snd (sessionCheck rl ''10.0.0.7'' 21 21);
       rl'' = snd (run rl' [SessionCheck ''10.0.0.7'' 100 100, LimitCheck ''10.0.0.8'' 5,
                CleanUp (\<lambda>ip. 24000000000), StartTimer 0 25000000021])
   in \<not> fst (sessionCheck rl ''10.0.0.7'' 21 21) \<and>
      brownList rl'' ''10.0.0.7'' = Some 25000000021 \<and>
      \<not> fst (sessionCheck rl'' ''10.0.0.7'' 25000000020 25000000020) \<and>
      fst (sessionCheck rl'' ''10.0.0.7'' 25000000021 25000000022) \<and>
      startTimer 0 25000000020 rl' = None \<and>
      startTimer 0 25000000021 rl' =
        Some (rl'\<lparr>timers := [], trace := trace rl' @ [Send UnblockCh ''10.0.0.7'']\<rparr>)"
proof -
  let ?rl = "newRateLimiter\<lparr>requests := [''10.0.0.7'' \<mapsto>
              [1, 2, 3, 4, 5, 6, 7, 8, 9, 10, 11, 12, 13, 14, 15, 16, 17, 18, 19, 20]]\<rparr>"
  let ?rl' = "snd (sessionCheck ?rl ''10.0.0.7'' 21 21)"
  let ?cs = "[SessionCheck ''10.0.0.7'' 100 100, LimitCheck ''10.0.0.8'' 5,
                CleanUp (\<lambda>ip. 24000000000), StartTimer 0 25000000021]"
  let ?rl'' = "snd (run ?rl' ?cs)"
  have a: "\<not> brownActive ?rl ''10.0.0.7'' 21"
    by (simp add: newRateLimiter_def brownActive_def)
  have b: "rateLimit < int (length (filteredRequests (21 - trackingDuration)
             (history ?rl ''10.0.0.7'' @ [21])))"
    by (simp add: history_def rateLimit_def trackingDuration_def Second_def)
  have c: "\<forall>c \<in> set ?cs. quiet ''10.0.0.7'' (21 + brownListedDuration) c"
    by (simp add: quiet_def brownListedDuration_def Second_def)
  have e: "25000000021 = 21 + brownListedDuration"
    by (simp add: brownListedDuration_def Second_def)
  note th = sessionCheck_brownList [OF a b c refl refl e]
  have tm: "timers ?rl = []"
    by (simp add: newRateLimiter_def)
  have h: "\<forall>t \<in> set (history ?rl'' ''10.0.0.7''). t \<le> 21"
    by (simp add: split_beta sessionCheck_def limitCheck_def cleanUp_def startTimer_def
          track_def emit_def history_def brownActive_def blackListed_def Let_def
          rateLimit_def trackingDuration_def brownListedDuration_def Second_def
          newRateLimiter_def)
  have lt: "(25000000020::int) < 25000000021" and le: "(25000000021::int) \<le> 25000000021"
    and le': "(25000000021::int) \<le> 25000000022"
    by simp_all
  have 1: "\<not> fst (sessionCheck ?rl ''10.0.0.7'' 21 21)"
    and 2: "brownList ?rl'' ''10.0.0.7'' = Some 25000000021"
    using th by blast+
  have 3: "\<not> fst (sessionCheck ?rl'' ''10.0.0.7'' 25000000020 25000000020)"
    using th [of 25000000020] lt by blast
  have 4: "fst (sessionCheck ?rl'' ''10.0.0.7'' 25000000021 25000000022)"
    using th [of 25000000021 25000000022] le le' h by blast
  have "startTimer (length (timers ?rl)) 25000000020 ?rl' =
          (if (25000000021::int) \<le> 25000000020
           then Some (?rl'\<lparr>timers := timers ?rl,
                   trace := trace ?rl' @ [Send UnblockCh ''10.0.0.7'']\<rparr>)
           else None)"
    using th [of _ _ 25000000020] by blast
  then have 5: "startTimer 0 25000000020 ?rl' = None"
    by (simp only: tm list.size) simp
  have "startTimer (length (timers ?rl)) 25000000021 ?rl' =
          (if (25000000021::int) \<le> 25000000021
           then Some (?rl'\<lparr>timers := timers ?rl,
                   trace := trace ?rl' @ [Send UnblockCh ''10.0.0.7'']\<rparr>)
           else None)"
    using th [of _ _ 25000000021] by blast
  then have 6: "startTimer 0 25000000021 ?rl' =
        Some (?rl'\<lparr>timers := [], trace := trace ?rl' @ [Send UnblockCh ''10.0.0.7'']\<rparr>)"
    by (simp only: tm list.size) simp
  from 1 2 3 4 5 6 show ?thesis
    unfolding Let_def by (intro conjI)
qed

lemma sessionCheck_expired:
  assumes "brownList rl ip = Some e" and "e \<le> t0"
  shows "sessionCheck rl ip t0 now =
           sessionCheck (rl\<lparr>brownList := (brownList rl)(ip := None)\<rparr>) ip t0 now"
  using assms by (simp add: sessionCheck_def brownActive_def Let_def emit_def track_def history_def)

text \<open>
  Claim C10. A \<open>sessionCheck\<close> for an address whose brown-list entry has expired
  at the time it reads behaves as on the state with the entry deleted: the entry is
  removed before the window is evaluated. Afterwards the address has a new entry when
  the window count exceeds \<open>rateLimit\<close> and none otherwise; in the second case the
  request is admitted, and no call touches \<open>blackList\<close>. A step of a timer goroutine
  leaves \<open>requests\<close>, \<open>blackList\<close> and \<open>brownList\<close> as they are and adds
  one send on the unblock channel to the trace.
\<close>

theorem brownList_cleared_by_sessionCheck:
  assumes "brownList rl ip = Some e" and "e \<le> t0"
  shows "sessionCheck rl ip t0 now =
           sessionCheck (rl\<lparr>brownList := (brownList rl)(ip := None)\<rparr>) ip t0 now \<and>
         brownList (snd (sessionCheck rl ip t0 now)) ip =
           (if rateLimit <
                 int (length (filteredRequests (now - trackingDuration) (history rl ip @ [now])))
            then Some (now + brownListedDuration) else None) \<and>
         (int (length (filteredRequests (now - trackingDuration) (history rl ip @ [now])))
            \<le> rateLimit \<longrightarrow>
          fst (sessionCheck rl ip t0 now) \<and> brownList (snd (sessionCheck rl ip t0 now)) ip = None) \<and>
         blackList (snd (sessionCheck rl ip t0 now)) = blackList rl \<and>
         (startTimer i t rl1 = Some rl1' \<longrightarrow>
            requests rl1' = requests rl1 \<and> blackList rl1' = blackList rl1 \<and>
            brownList rl1' = brownList rl1 \<and>
            trace rl1' = trace rl1 @ [Send UnblockCh (fst (timers rl1 ! i))])"
proof -
  have a: "\<not> brownActive rl ip t0"
    using assms by (simp add: brownActive_def)
  have b: "brownList (snd (sessionCheck rl ip t0 now)) ip =
           (if rateLimit <
                 int (length (filteredRequests (now - trackingDuration) (history rl ip @ [now])))
            then Some (now + brownListedDuration) else None)"
    using a by (simp add: brownList_sessionCheck)
  have c: "fst (sessionCheck rl ip t0 now) \<and> brownList (snd (sessionCheck rl ip t0 now)) ip = None"
    if "int (length (filteredRequests (now - trackingDuration) (history rl ip @ [now]))) \<le> rateLimit"
    using a that by (simp add: brownList_sessionCheck fst_sessionCheck)
  have d: "requests rl1' = requests rl1 \<and> blackList rl1' = blackList rl1 \<and>
            brownList rl1' = brownList rl1 \<and>
            trace rl1' = trace rl1 @ [Send UnblockCh (fst (timers rl1 ! i))]"
    if "startTimer i t rl1 = Some rl1'"
    using that by (simp add: startTimer_fields)
  have e: "blackList (snd (sessionCheck rl ip t0 now)) = blackList rl"
    by simp
  from sessionCheck_expired [OF assms] b c d e show ?thesis by blast
qed

theorem brownList_cleared_by_sessionCheck_witness:
  "let rl = newRateLimiter\<lparr>requests := [''10.0.0.7'' \<mapsto>
              [1, 2, 3, 4, 5, 6, 7, 8, 9, 10, 11, 12, 13, 14, 15, 16, 17, 18, 19, 20, 21]],
              brownList := [''10.0.0.7'' \<mapsto> 25000000021],
              timers := [(''10.0.0.7'', 25000000021)]\<rparr>
   in fst (sessionCheck rl ''10.0.0.7'' 25000000021 25000000022) \<and>
      brownList (snd (sessionCheck rl ''10.0.0.7'' 25000000021 25000000022)) ''10.0.0.7'' = None \<and>
      startTimer 0 25000000021 rl =
        Some (rl\<lparr>trace := [Send UnblockCh ''10.0.0.7''], timers := []\<rparr>) \<and>
      brownList (rl\<lparr>trace := [Send UnblockCh ''10.0.0.7''], timers := []\<rparr>) = brownList rl"
proof -
  let ?rl = "newRateLimiter\<lparr>requests := [''10.0.0.7'' \<mapsto>
              [1, 2, 3, 4, 5, 6, 7, 8, 9, 10, 11, 12, 13, 14, 15, 16, 17, 18, 19, 20, 21]],
              brownList := [''10.0.0.7'' \<mapsto> 25000000021],
              timers := [(''10.0.0.7'', 25000000021)]\<rparr>"
  let ?rl' = "?rl\<lparr>trace := [Send UnblockCh ''10.0.0.7''], timers := []\<rparr>"
  have a: "brownList ?rl ''10.0.0.7'' = Some 25000000021" by simp
  have b: "(25000000021::int) \<le> 25000000021" by simp
  have c: "int (length (filteredRequests (25000000022 - trackingDuration)
             (history ?rl ''10.0.0.7'' @ [25000000022]))) \<le> rateLimit"
    by (simp add: history_def rateLimit_def trackingDuration_def Second_def)
  have d: "startTimer 0 25000000021 ?rl = Some ?rl'"
    by (simp add: startTimer_def emit_def newRateLimiter_def)
  note th = brownList_cleared_by_sessionCheck [OF a b, of 25000000022 0 25000000021 ?rl ?rl']
  have 1: "fst (sessionCheck ?rl ''10.0.0.7'' 25000000021 25000000022) \<and>
      brownList (snd (sessionCheck ?rl ''10.0.0.7'' 25000000021 25000000022)) ''10.0.0.7'' = None"
    using th c by blast
  have 2: "brownList ?rl' = brownList ?rl"
    using th d by blast
  from 1 2 d show ?thesis unfolding Let_def by (intro conjI) blast+
qed

text \<open>
  Claim C7, as the code has it. \<open>limitCheck\<close> and \<open>sessionCheck\<close> take the
  mutex first and release it last. When they signal, the send on the block channel, a
  plain send statement, is executed between the two, so the mutex is held at the send.
  The send on the unblock channel is executed by the timer goroutine, which takes no
  mutex.
\<close>

theorem signals_sent_under_lock:
  "trace (snd (limitCheck rl ip now)) =
     trace rl @
     (if \<not> blackListed rl ip \<and>
         rateLimit < int (length (filteredRequests (now - trackingDuration) (history rl ip @ [now])))
      then [Lock, Send BlacklistCh ip, Unlock] else [Lock, Unlock]) \<and>
   trace (snd (sessionCheck rl ip t0 now)) =
     trace rl @
     (if \<not> brownActive rl ip t0 \<and>
         rateLimit < int (length (filteredRequests (now - trackingDuration) (history rl ip @ [now])))
      then [Lock, Send BlacklistCh ip, Unlock] else [Lock, Unlock]) \<and>
   lockedSends False [Lock, Send BlacklistCh ip, Unlock] = [(BlacklistCh, ip)] \<and>
   lockedSends False [Lock, Unlock] = [] \<and>
   (case startTimer i t rl of
      None \<Rightarrow> True
    | Some rl' \<Rightarrow> trace rl' = trace rl @ [Send UnblockCh (fst (timers rl ! i))] \<and>
        lockedSends False [Send UnblockCh (fst (timers rl ! i))] = [])"
  by (simp add: trace_limitCheck trace_sessionCheck startTimer_fields split: option.splits)

text \<open>
  Claim C7 as stated fails: the call of \<open>limitCheck\<close> that blacklists an address
  sends on the block channel while it holds the mutex.
\<close>

theorem lock_held_across_send:
  "lockedSends False
     (trace (snd (limitCheck
        (newRateLimiter\<lparr>requests := [''10.0.0.7'' \<mapsto>
           [1, 2, 3, 4, 5, 6, 7, 8, 9, 10, 11, 12, 13, 14, 15, 16, 17, 18, 19, 20]]\<rparr>)
        ''10.0.0.7'' 21))) = [(BlacklistCh, ''10.0.0.7'')]"
  by (simp add: limitCheck_def track_def emit_def history_def blackListed_def Let_def
        rateLimit_def trackingDuration_def Second_def newRateLimiter_def)

lemma requests_shared:
  assumes "\<not> blackListed rl ip" and "\<not> brownActive rl ip t0"
  shows "requests (snd (sessionCheck rl ip t0 now)) = requests (snd (limitCheck rl ip now))"
  using assms
  by (simp add: sessionCheck_def limitCheck_def Let_def track_def emit_def history_def)

lemma run_mixed:
  assumes "\<forall>c \<in> set cs. fromClient ip T c"
    and "\<forall>t \<in> set (history rl ip). T \<le> t"
    and "\<not> blackListed rl ip" and "brownList rl ip = None"
    and "length (history rl ip) + length cs \<le> 21"
  shows "fst (run rl cs) =
           map (\<lambda>k. int (length (history rl ip) + k) < rateLimit) [0..<length cs]"
  using assms
proof (induction cs arbitrary: rl)
  case Nil
  then show ?case by simp
next
  case (Cons c cs)
  have na: "\<not> brownActive rl ip t0" for t0
    using Cons.prems(4) by (simp add: brownActive_def)
  obtain b rl' where step: "fst (run rl (c # cs)) = b # fst (run rl' cs)"
    and b: "b \<longleftrightarrow> int (length (history rl ip)) < rateLimit"
    and h: "history rl' ip = history rl ip @ [last (history rl' ip)]"
    and T: "T \<le> last (history rl' ip)"
    and bl: "int (length (history rl ip)) < rateLimit \<Longrightarrow> \<not> blackListed rl' ip"
    and br: "int (length (history rl ip)) < rateLimit \<Longrightarrow> brownList rl' ip = None"
  proof (cases c)
    case (LimitCheck ip' now)
    with Cons.prems(1) have [simp]: "ip' = ip" and now: "T \<le> now" "now \<le> T + 5 * Second"
      by (simp_all add: fromClient_def)
    have w: "filteredRequests (now - trackingDuration) (history rl ip @ [now]) = history rl ip @ [now]"
      using Cons.prems(2) now by (intro window_keeps_all[of _ T]) auto
    show ?thesis
    proof (rule that [of "fst (limitCheck rl ip now)" "snd (limitCheck rl ip now)"])
      show "fst (run rl (c # cs)) = fst (limitCheck rl ip now) # fst (run (snd (limitCheck rl ip now)) cs)"
        using LimitCheck by (simp add: split_beta)
    qed (use Cons.prems(3,4) now in \<open>auto simp: fst_limitCheck history_limitCheck blackListed_limitCheck w\<close>)
  next
    case (SessionCheck ip' t0 now)
    with Cons.prems(1) have [simp]: "ip' = ip" and now: "T \<le> now" "now \<le> T + 5 * Second"
      by (simp_all add: fromClient_def)
    have w: "filteredRequests (now - trackingDuration) (history rl ip @ [now]) = history rl ip @ [now]"
      using Cons.prems(2) now by (intro window_keeps_all[of _ T]) auto
    show ?thesis
    proof (rule that [of "fst (sessionCheck rl ip t0 now)" "snd (sessionCheck rl ip t0 now)"])
      show "fst (run rl (c # cs)) =
              fst (sessionCheck rl ip t0 now) # fst (run (snd (sessionCheck rl ip t0 now)) cs)"
        using SessionCheck by (simp add: split_beta)
    qed (use Cons.prems(3,4) now na in
          \<open>auto simp: fst_sessionCheck history_sessionCheck brownList_sessionCheck w\<close>)
  next
    case (CleanUp f)
    with Cons.prems(1) show ?thesis by (simp add: fromClient_def)
  next
    case (StartTimer i t)
    with Cons.prems(1) show ?thesis by (simp add: fromClient_def)
  qed
  show ?case
  proof (cases cs)
    case Nil
    with step b show ?thesis by simp
  next
    case (Cons c' cs')
    with Cons.prems(5) have small: "int (length (history rl ip)) < rateLimit"
      by (simp add: rateLimit_def)
    have len: "length (history rl' ip) = Suc (length (history rl ip))"
      by (subst h) simp
    have "fst (run rl' cs) =
            map (\<lambda>k. int (length (history rl' ip) + k) < rateLimit) [0..<length cs]"
    proof (rule Cons.IH)
      show "\<forall>c \<in> set cs. fromClient ip T c" using Cons.prems(1) by simp
      show "\<forall>t \<in> set (history rl' ip). T \<le> t"
        by (subst h) (use Cons.prems(2) T in auto)
      show "\<not> blackListed rl' ip" using bl small by simp
      show "brownList rl' ip = None" using br small by simp
      show "length (history rl' ip) + length cs \<le> 21" using Cons.prems(5) len by simp
    qed
    with step b show ?thesis
      by (auto simp add: len map_upt_Suc simp del: upt_Suc)
  qed
qed

lemma snd_run_append: "snd (run rl (xs @ ys)) = snd (run (snd (run rl xs)) ys)"
proof (induction xs arbitrary: rl)
  case Nil
  then show ?case by simp
next
  case (Cons c xs)
  show ?case
    by (simp only: append_Cons snd_run_Cons Cons.IH)
qed

lemma snd_run_snoc: "snd (run rl (xs @ [c])) = snd (step c (snd (run rl xs)))"
  by (simp add: snd_run_append split_beta)

lemma answersFor_snoc:
  "answersFor ip rl (xs @ [c]) =
     answersFor ip rl xs @
     (if requestTime ip c = [] then [] else fst (step c (snd (run rl xs))))"
proof (induction xs arbitrary: rl)
  case Nil
  then show ?case by simp
next
  case (Cons x xs)
  show ?case
    by (simp only: append_Cons answersFor.simps snd_run_Cons Cons.IH append_assoc)
qed

lemma filter_window_mono:
  assumes "(r::int) \<le> m"
  shows "filter (\<lambda>t. m - d < t) (filter (\<lambda>t. r - d < t) ts) = filter (\<lambda>t. m - d < t) ts"
proof -
  have "(m - d < t \<and> r - d < t) = (m - d < t)" for t
    using assms by auto
  then show ?thesis by (simp add: conj_commute)
qed

lemma td_pos: "0 < trackingDuration"
  by (simp add: trackingDuration_def Second_def)

lemma tracked_track:
  assumes inv: "tracked ip pre rl'" and le: "\<forall>r \<in> set (readings ip pre). r \<le> now"
  shows "filteredRequests (now - trackingDuration) (history rl' ip @ [now]) =
           filter (\<lambda>t. now - trackingDuration < t) (requestTimes ip pre) @ [now]"
  using inv le td_pos by (simp add: tracked_def filteredRequests_filter)

lemma tracked_after_append:
  assumes inv: "tracked ip pre rl'" and le: "\<forall>r \<in> set (readings ip pre). r \<le> now"
    and h: "history rl2 ip = filteredRequests (now - trackingDuration) (history rl' ip @ [now])"
    and b: "\<not> blackListed rl2 ip" "brownList rl2 ip = None"
    and rd: "readings ip pre2 = readings ip pre @ [now]"
    and rt: "requestTimes ip pre2 = requestTimes ip pre @ [now]"
  shows "tracked ip pre2 rl2"
  unfolding tracked_def
proof (intro conjI allI impI)
  fix m
  assume m: "\<forall>r \<in> set (readings ip pre2). r \<le> m"
  then have nm: "now \<le> m" by (simp add: rd)
  have "filter (\<lambda>t. m - trackingDuration < t) (history rl2 ip) =
        filter (\<lambda>t. m - trackingDuration < t)
          (filter (\<lambda>t. now - trackingDuration < t) (requestTimes ip pre @ [now]))"
    using tracked_track [OF inv le] td_pos by (simp add: h)
  also have "\<dots> = filter (\<lambda>t. m - trackingDuration < t) (requestTimes ip pre @ [now])"
    using nm by (rule filter_window_mono)
  finally show "filter (\<lambda>t. m - trackingDuration < t) (history rl2 ip) =
        filter (\<lambda>t. m - trackingDuration < t) (requestTimes ip pre2)"
    by (simp add: rt)
qed (use b in simp_all)

lemma readings_snoc: "readings ip (pre @ [c]) = readings ip pre @ reading ip c"
  by (simp add: readings_def)

lemma requestTimes_snoc: "requestTimes ip (pre @ [c]) = requestTimes ip pre @ requestTime ip c"
  by (simp add: requestTimes_def)

lemma tracked_foreign:
  assumes inv: "tracked ip pre rl'"
    and "history rl2 ip = history rl' ip" and "blackListed rl2 ip = blackListed rl' ip"
    and "brownList rl2 ip = brownList rl' ip"
    and "reading ip c = []" and "requestTime ip c = []"
  shows "tracked ip (pre @ [c]) rl2"
  using assms by (simp add: tracked_def readings_snoc requestTimes_snoc)

lemma history_startTimer:
  "history (case startTimer i t rl of None \<Rightarrow> rl | Some rl' \<Rightarrow> rl') = history rl"
  by (auto simp: history_def fun_eq_iff startTimer_fields split: option.splits)

lemma blackListed_startTimer:
  "blackListed (case startTimer i t rl of None \<Rightarrow> rl | Some rl' \<Rightarrow> rl') = blackListed rl"
  by (auto simp: blackListed_def fun_eq_iff startTimer_fields split: option.splits)

lemma brownList_startTimer:
  "brownList (case startTimer i t rl of None \<Rightarrow> rl | Some rl' \<Rightarrow> rl') = brownList rl"
  by (auto simp: startTimer_fields split: option.splits)

lemma tracked_step:
  assumes inv: "tracked ip pre rl'"
    and le: "\<forall>r \<in> set (readings ip pre). \<forall>x \<in> set (reading ip c). r \<le> x"
    and ans: "requestTime ip c \<noteq> [] \<Longrightarrow> \<forall>b \<in> set (fst (step c rl')). b"
  shows "tracked ip (pre @ [c]) (snd (step c rl'))"
proof (cases c)
  case (LimitCheck ip' now)
  show ?thesis
  proof (cases "ip' = ip")
    case True
    from le have le': "\<forall>r \<in> set (readings ip pre). r \<le> now"
      by (simp add: LimitCheck True)
    from ans have a: "fst (limitCheck rl' ip now)"
      by (simp add: LimitCheck True split_beta)
    show ?thesis
      using inv le'
    proof (rule tracked_after_append)
      show "history (snd (step c rl')) ip =
              filteredRequests (now - trackingDuration) (history rl' ip @ [now])"
        using a by (simp add: LimitCheck True split_beta history_limitCheck fst_limitCheck)
      show "\<not> blackListed (snd (step c rl')) ip"
        using a by (simp add: LimitCheck True split_beta blackListed_limitCheck fst_limitCheck)
      show "brownList (snd (step c rl')) ip = None"
        using inv by (simp add: LimitCheck split_beta tracked_def)
    qed (simp_all add: LimitCheck True readings_snoc requestTimes_snoc)
  next
    case False
    show ?thesis
      using inv
    proof (rule tracked_foreign)
      show "blackListed (snd (step c rl')) ip = blackListed rl' ip"
        using False by (auto simp: LimitCheck split_beta blackListed_limitCheck)
    qed (use False in \<open>simp_all add: LimitCheck split_beta history_limitCheck\<close>)
  qed
next
  case (SessionCheck ip' t0 now)
  show ?thesis
  proof (cases "ip' = ip")
    case True
    from le have le': "\<forall>r \<in> set (readings ip pre). r \<le> now"
      by (simp add: SessionCheck True)
    from ans have a: "fst (sessionCheck rl' ip t0 now)"
      by (simp add: SessionCheck True split_beta)
    show ?thesis
      using inv le'
    proof (rule tracked_after_append)
      show "history (snd (step c rl')) ip =
              filteredRequests (now - trackingDuration) (history rl' ip @ [now])"
        using a by (simp add: SessionCheck True split_beta history_sessionCheck fst_sessionCheck)
      show "\<not> blackListed (snd (step c rl')) ip"
        using inv by (simp add: SessionCheck split_beta tracked_def)
      show "brownList (snd (step c rl')) ip = None"
        using a by (simp add: SessionCheck True split_beta brownList_sessionCheck fst_sessionCheck)
    qed (simp_all add: SessionCheck True readings_snoc requestTimes_snoc)
  next
    case False
    show ?thesis
      using inv
    proof (rule tracked_foreign)
      show "brownList (snd (step c rl')) ip = brownList rl' ip"
        using False by (simp add: SessionCheck split_beta brownList_sessionCheck)
    qed (use False in \<open>simp_all add: SessionCheck split_beta history_sessionCheck\<close>)
  qed
next
  case (CleanUp f)
  show ?thesis
    unfolding tracked_def
  proof (intro conjI allI impI)
    fix m
    assume m: "\<forall>r \<in> set (readings ip (pre @ [c])). r \<le> m"
    then have fm: "f ip \<le> m" and old: "\<forall>r \<in> set (readings ip pre). r \<le> m"
      by (simp_all add: CleanUp readings_snoc)
    have "filter (\<lambda>t. m - trackingDuration < t) (history (snd (step c rl')) ip) =
          filter (\<lambda>t. m - trackingDuration < t)
            (filter (\<lambda>t. f ip - trackingDuration < t) (history rl' ip))"
      by (simp add: CleanUp history_cleanUp filteredRequests_filter)
    also have "\<dots> = filter (\<lambda>t. m - trackingDuration < t) (history rl' ip)"
      using fm by (rule filter_window_mono)
    also have "\<dots> = filter (\<lambda>t. m - trackingDuration < t) (requestTimes ip pre)"
      using inv old by (simp add: tracked_def)
    finally show "filter (\<lambda>t. m - trackingDuration < t) (history (snd (step c rl')) ip) =
          filter (\<lambda>t. m - trackingDuration < t) (requestTimes ip (pre @ [c]))"
      by (simp add: CleanUp requestTimes_snoc)
  qed (use inv in \<open>simp_all add: CleanUp tracked_def\<close>)
next
  case (StartTimer i t)
  show ?thesis
    using inv
    by (rule tracked_foreign)
      (simp_all add: StartTimer history_startTimer blackListed_startTimer brownList_startTimer)
qed

lemma tracked_run:
  assumes "history rl ip = []" and "\<not> blackListed rl ip" and "brownList rl ip = None"
    and "sorted (readings ip pre)" and "\<forall>b \<in> set (answersFor ip rl pre). b"
  shows "tracked ip pre (snd (run rl pre))"
  using assms(4,5)
proof (induction pre rule: rev_induct)
  case Nil
  with assms(1-3) show ?case by (simp add: tracked_def requestTimes_def)
next
  case (snoc c pre)
  from snoc.prems(1) have s: "sorted (readings ip pre)"
    and le: "\<forall>r \<in> set (readings ip pre). \<forall>x \<in> set (reading ip c). r \<le> x"
    by (auto simp: readings_snoc sorted_append)
  from snoc.prems(2) have a: "\<forall>b \<in> set (answersFor ip rl pre). b"
    and ans: "requestTime ip c \<noteq> [] \<Longrightarrow> \<forall>b \<in> set (fst (step c (snd (run rl pre)))). b"
    by (auto simp: answersFor_snoc split: if_splits)
  have "tracked ip pre (snd (run rl pre))"
    using s a by (rule snoc.IH)
  then have "tracked ip (pre @ [c]) (snd (step c (snd (run rl pre))))"
    using le ans by (rule tracked_step)
  then show ?case by (simp only: snd_run_snoc)
qed

lemma window_count:
  "int (length (filteredRequests (now - trackingDuration) (h @ [now]))) \<le> rateLimit \<longleftrightarrow>
   int (length (filter (\<lambda>t. now - trackingDuration < t) h)) < rateLimit"
  using td_pos by (auto simp add: filteredRequests_filter)

lemma window_append:
  "filteredRequests (now - trackingDuration) (h @ [now]) =
     filter (\<lambda>t. now - trackingDuration < t) h @ [now]"
  using td_pos by (simp add: filteredRequests_filter)

lemma tracked_count:
  assumes "history rl ip = []" and "\<not> blackListed rl ip" and "brownList rl ip = None"
    and "sorted (readings ip pre @ [now])" and "\<forall>b \<in> set (answersFor ip rl pre). b"
  shows "\<not> blackListed (snd (run rl pre)) ip"
    and "brownList (snd (run rl pre)) ip = None"
    and "filter (\<lambda>t. now - trackingDuration < t) (history (snd (run rl pre)) ip) =
         filter (\<lambda>t. now - trackingDuration < t) (requestTimes ip pre)"
proof -
  from assms(4) have s: "sorted (readings ip pre)"
    and le: "\<forall>r \<in> set (readings ip pre). r \<le> now"
    by (auto simp: sorted_append)
  have inv: "tracked ip pre (snd (run rl pre))"
    using assms(1-3) s assms(5) by (rule tracked_run)
  then show "\<not> blackListed (snd (run rl pre)) ip" "brownList (snd (run rl pre)) ip = None"
    by (simp_all add: tracked_def)
  from inv le show "filter (\<lambda>t. now - trackingDuration < t) (history (snd (run rl pre)) ip) =
         filter (\<lambda>t. now - trackingDuration < t) (requestTimes ip pre)"
    by (simp add: tracked_def)
qed

text \<open>
  Claim C1. A call of \<open>limitCheck\<close> is admitted exactly when the address is not
  blacklisted and fewer than \<open>rateLimit\<close> of its recorded times lie after
  \<open>now - trackingDuration\<close>, that is, when the window count taken after the time of
  the call has been appended and the older times have been dropped is at most
  \<open>rateLimit\<close>; the call leaves exactly the times of that window recorded, and a
  call for another address changes neither the recorded times nor the blacklist entry
  of this one. For an address that starts with no recorded times and no block entry,
  after any calls (checks for any address, passes of \<open>cleanUp\<close>, timer steps) in
  which the clock readings that concern the address do not decrease and every check
  for it was admitted, a request without session at \<open>now\<close> is admitted exactly
  when fewer than \<open>rateLimit\<close> of its earlier requests lie after
  \<open>now - trackingDuration\<close>: it is rejected once the window holds more than
  \<open>rateLimit\<close> requests with itself, and not before. When all its requests fall
  within 5 seconds, request \<open>k\<close> is admitted exactly when \<open>k \<le> rateLimit\<close>: of
  21 requests the first 20 are admitted and request 21 is rejected.
\<close>

theorem limitCheck_sliding_window:
  assumes "\<forall>t \<in> set ts. T \<le> t \<and> t \<le> T + 5 * Second"
    and "history rl ip = []" and "\<not> blackListed rl ip"
  shows "(fst (limitCheck rl' ip' now) \<longleftrightarrow>
            \<not> blackListed rl' ip' \<and>
            int (length (filter (\<lambda>t. now - trackingDuration < t) (history rl' ip'))) < rateLimit) \<and>
         (\<not> blackListed rl' ip' \<longrightarrow>
            history (snd (limitCheck rl' ip' now)) ip' =
              filter (\<lambda>t. now - trackingDuration < t) (history rl' ip') @ [now]) \<and>
         (ip'' \<noteq> ip' \<longrightarrow>
            history (snd (limitCheck rl' ip'' now)) ip' = history rl' ip' \<and>
            blackListed (snd (limitCheck rl' ip'' now)) ip' = blackListed rl' ip') \<and>
         (brownList rl ip = None \<and> sorted (readings ip pre @ [now]) \<and>
          (\<forall>b \<in> set (answersFor ip rl pre). b) \<longrightarrow>
            (fst (limitCheck (snd (run rl pre)) ip now) \<longleftrightarrow>
               int (length (filter (\<lambda>t. now - trackingDuration < t) (requestTimes ip pre)))
                 < rateLimit)) \<and>
         fst (run rl (map (LimitCheck ip) ts)) = map (\<lambda>k. int k < rateLimit) [0..<length ts] \<and>
         (length ts = 21 \<longrightarrow>
            fst (run rl (map (LimitCheck ip) ts)) = replicate 20 True @ [False])"
proof -
  have ff: "filteredRequests c xs = filter (\<lambda>t. c < t) xs" for c xs
    by (induction xs) simp_all
  have pos: "0 < trackingDuration"
    by (simp add: trackingDuration_def Second_def)
  have 1: "fst (limitCheck rl' ip' now) \<longleftrightarrow>
            \<not> blackListed rl' ip' \<and>
            int (length (filter (\<lambda>t. now - trackingDuration < t) (history rl' ip'))) < rateLimit"
    using pos by (auto simp add: fst_limitCheck ff)
  have 2: "history (snd (limitCheck rl' ip' now)) ip' =
              filter (\<lambda>t. now - trackingDuration < t) (history rl' ip') @ [now]"
    if "\<not> blackListed rl' ip'"
    using that pos by (simp add: history_limitCheck ff)
  have 3: "history (snd (limitCheck rl' ip'' now)) ip' = history rl' ip' \<and>
            blackListed (snd (limitCheck rl' ip'' now)) ip' = blackListed rl' ip'"
    if "ip'' \<noteq> ip'"
    using that by (auto simp: history_limitCheck blackListed_limitCheck)
  have 4: "fst (limitCheck (snd (run rl pre)) ip now) \<longleftrightarrow>
               int (length (filter (\<lambda>t. now - trackingDuration < t) (requestTimes ip pre)))
                 < rateLimit"
    if "brownList rl ip = None \<and> sorted (readings ip pre @ [now]) \<and>
          (\<forall>b \<in> set (answersFor ip rl pre). b)"
  proof -
    from that have b: "brownList rl ip = None" and s: "sorted (readings ip pre @ [now])"
      and a: "\<forall>b \<in> set (answersFor ip rl pre). b"
      by blast+
    note tc = tracked_count [OF assms(2,3) b s a]
    show ?thesis
      by (simp only: fst_limitCheck window_count tc) simp
  qed
  have r: "fst (run rl (map (LimitCheck ip) ts)) = map (\<lambda>k. int k < rateLimit) [0..<length ts]"
    using run_limitChecks[of rl ip ts T] assms by (simp add: rateLimit_def)
  have "map (\<lambda>k. int k < rateLimit) [0..<21] = replicate 20 True @ [False]"
    by (simp add: rateLimit_def upt_rec eval_nat_numeral)
  with r have 5: "length ts = 21 \<longrightarrow>
            fst (run rl (map (LimitCheck ip) ts)) = replicate 20 True @ [False]"
    by simp
  from 1 2 3 4 r 5 show ?thesis by blast
qed

theorem limitCheck_sliding_window_witness:
  "fst (run newRateLimiter (map (LimitCheck ''10.0.0.7'')
     [0, 100000000, 200000000, 300000000, 400000000, 500000000, 600000000,
      700000000, 800000000, 900000000, 1000000000, 1500000000, 2000000000,
      2500000000, 3000000000, 3500000000, 4000000000, 4500000000, 4800000000,
      4900000000, 5000000000])) = replicate 20 True @ [False] \<and>
   \<not> fst (limitCheck (snd (run newRateLimiter
     [LimitCheck ''10.0.0.7'' 1, LimitCheck ''10.0.0.7'' 2, LimitCheck ''10.0.0.8'' 7,
      LimitCheck ''10.0.0.7'' 3, LimitCheck ''10.0.0.7'' 4, LimitCheck ''10.0.0.7'' 5,
      LimitCheck ''10.0.0.7'' 6, LimitCheck ''10.0.0.7'' 7, LimitCheck ''10.0.0.7'' 8,
      CleanUp (\<lambda>a. 8), LimitCheck ''10.0.0.7'' 9, LimitCheck ''10.0.0.7'' 10,
      LimitCheck ''10.0.0.7'' 11, LimitCheck ''10.0.0.7'' 12, LimitCheck ''10.0.0.7'' 13,
      SessionCheck ''10.0.0.8'' 0 9, LimitCheck ''10.0.0.7'' 14, LimitCheck ''10.0.0.7'' 15,
      LimitCheck ''10.0.0.7'' 16, LimitCheck ''10.0.0.7'' 17, LimitCheck ''10.0.0.7'' 18,
      LimitCheck ''10.0.0.7'' 19, LimitCheck ''10.0.0.7'' 20])) ''10.0.0.7'' 20000000000) \<and>
   fst (limitCheck (snd (run newRateLimiter
     [LimitCheck ''10.0.0.7'' 1, LimitCheck ''10.0.0.7'' 2, LimitCheck ''10.0.0.8'' 7,
      LimitCheck ''10.0.0.7'' 3, LimitCheck ''10.0.0.7'' 4, LimitCheck ''10.0.0.7'' 5,
      LimitCheck ''10.0.0.7'' 6, LimitCheck ''10.0.0.7'' 7, LimitCheck ''10.0.0.7'' 8,
      CleanUp (\<lambda>a. 8), LimitCheck ''10.0.0.7'' 9, LimitCheck ''10.0.0.7'' 10,
      LimitCheck ''10.0.0.7'' 11, LimitCheck ''10.0.0.7'' 12, LimitCheck ''10.0.0.7'' 13,
      SessionCheck ''10.0.0.8'' 0 9, LimitCheck ''10.0.0.7'' 14, LimitCheck ''10.0.0.7'' 15,
      LimitCheck ''10.0.0.7'' 16, LimitCheck ''10.0.0.7'' 17, LimitCheck ''10.0.0.7'' 18,
      LimitCheck ''10.0.0.7'' 19, LimitCheck ''10.0.0.7'' 20])) ''10.0.0.7'' 20000000001) \<and>
   history (snd (limitCheck (snd (limitCheck newRateLimiter ''10.0.0.7'' 1))
     ''10.0.0.7'' 20000000002)) ''10.0.0.7'' = [20000000002]"
proof -
  let ?ts = "[0, 100000000, 200000000, 300000000, 400000000, 500000000, 600000000,
      700000000, 800000000, 900000000, 1000000000, 1500000000, 2000000000,
      2500000000, 3000000000, 3500000000, 4000000000, 4500000000, 4800000000,
      4900000000, 5000000000] :: int list"
  let ?pre = "[LimitCheck ''10.0.0.7'' 1, LimitCheck ''10.0.0.7'' 2, LimitCheck ''10.0.0.8'' 7,
      LimitCheck ''10.0.0.7'' 3, LimitCheck ''10.0.0.7'' 4, LimitCheck ''10.0.0.7'' 5,
      LimitCheck ''10.0.0.7'' 6, LimitCheck ''10.0.0.7'' 7, LimitCheck ''10.0.0.7'' 8,
      CleanUp (\<lambda>a. 8), LimitCheck ''10.0.0.7'' 9, LimitCheck ''10.0.0.7'' 10,
      LimitCheck ''10.0.0.7'' 11, LimitCheck ''10.0.0.7'' 12, LimitCheck ''10.0.0.7'' 13,
      SessionCheck ''10.0.0.8'' 0 9, LimitCheck ''10.0.0.7'' 14, LimitCheck ''10.0.0.7'' 15,
      LimitCheck ''10.0.0.7'' 16, LimitCheck ''10.0.0.7'' 17, LimitCheck ''10.0.0.7'' 18,
      LimitCheck ''10.0.0.7'' 19, LimitCheck ''10.0.0.7'' 20]"
  have a: "\<forall>t \<in> set ?ts. 0 \<le> t \<and> t \<le> 0 + 5 * Second"
    by (simp add: Second_def)
  have b: "history newRateLimiter ''10.0.0.7'' = []"
    by (simp add: newRateLimiter_def history_def)
  have c: "\<not> blackListed newRateLimiter ''10.0.0.7''"
    by (simp add: newRateLimiter_def blackListed_def)
  have d: "brownList newRateLimiter ''10.0.0.7'' = None"
    by (simp add: newRateLimiter_def)
  have e: "\<forall>b \<in> set (answersFor ''10.0.0.7'' newRateLimiter ?pre). b"
    by (simp add: split_beta sessionCheck_def limitCheck_def cleanUp_def
          track_def emit_def history_def brownActive_def blackListed_def Let_def
          rateLimit_def trackingDuration_def Second_def newRateLimiter_def)
  have s0: "sorted (readings ''10.0.0.7'' ?pre @ [20000000000])"
    and s1: "sorted (readings ''10.0.0.7'' ?pre @ [20000000001])"
    by (simp_all add: readings_def)
  have n0: "\<not> int (length (filter (\<lambda>t. 20000000000 - trackingDuration < t)
              (requestTimes ''10.0.0.7'' ?pre))) < rateLimit"
    and n1: "int (length (filter (\<lambda>t. 20000000001 - trackingDuration < t)
              (requestTimes ''10.0.0.7'' ?pre))) < rateLimit"
    by (simp_all add: requestTimes_def trackingDuration_def Second_def rateLimit_def)
  note th = limitCheck_sliding_window [OF a b c]
  have "length ?ts = 21 \<longrightarrow>
          fst (run newRateLimiter (map (LimitCheck ''10.0.0.7'') ?ts)) = replicate 20 True @ [False]"
    using th by blast
  moreover have "length ?ts = 21" by simp
  ultimately have 1: "fst (run newRateLimiter (map (LimitCheck ''10.0.0.7'') ?ts)) =
      replicate 20 True @ [False]"
    by (rule mp)
  have 2: "\<not> fst (limitCheck (snd (run newRateLimiter ?pre)) ''10.0.0.7'' 20000000000)"
    using th [where pre = ?pre and now = 20000000000] d s0 e n0 by blast
  have 3: "fst (limitCheck (snd (run newRateLimiter ?pre)) ''10.0.0.7'' 20000000001)"
    using th [where pre = ?pre and now = 20000000001] d s1 e n1 by blast
  have 4: "history (snd (limitCheck (snd (limitCheck newRateLimiter ''10.0.0.7'' 1))
     ''10.0.0.7'' 20000000002)) ''10.0.0.7'' = [20000000002]"
    by (simp add: limitCheck_def track_def emit_def history_def blackListed_def Let_def
          rateLimit_def trackingDuration_def Second_def newRateLimiter_def)
  from 1 2 3 4 show ?thesis by (intro conjI)
qed

text \<open>
  Claim C9. \<open>sessionCheck\<close> and \<open>limitCheck\<close> work on the one slice
  \<open>requests[ip]\<close>: each, when it does not return early, leaves the recorded times
  that lie after \<open>now - trackingDuration\<close> followed by \<open>now\<close>, and each admits
  exactly when fewer than \<open>rateLimit\<close> recorded times lie in that window, whichever
  path recorded them. For an address that starts with no recorded times and no block
  entry, after any calls in which the clock readings that concern the address do not
  decrease and every check for it, with or without session, was admitted, the next
  check on either path is admitted exactly when fewer than \<open>rateLimit\<close> of its
  earlier requests of both kinds lie after \<open>now - trackingDuration\<close>. When all its
  requests fall within 5 seconds, whatever the mix of the two paths, the first 20 are
  admitted and request 21 is rejected.
\<close>

theorem shared_window:
  assumes "\<forall>c \<in> set cs. fromClient ip T c"
    and "history rl ip = []" and "\<not> blackListed rl ip" and "brownList rl ip = None"
    and "length cs \<le> 21"
  shows "fst (run rl cs) = map (\<lambda>k. int k < rateLimit) [0..<length cs] \<and>
         (length cs = 21 \<longrightarrow> fst (run rl cs) = replicate 20 True @ [False]) \<and>
         (\<not> blackListed rl1 ip1 \<and> \<not> brownActive rl1 ip1 t0 \<longrightarrow>
            requests (snd (sessionCheck rl1 ip1 t0 now)) = requests (snd (limitCheck rl1 ip1 now))) \<and>
         (\<not> blackListed rl1 ip1 \<longrightarrow>
            history (snd (limitCheck rl1 ip1 now)) ip1 =
              filter (\<lambda>t. now - trackingDuration < t) (history rl1 ip1) @ [now]) \<and>
         (\<not> brownActive rl1 ip1 t0 \<longrightarrow>
            history (snd (sessionCheck rl1 ip1 t0 now)) ip1 =
              filter (\<lambda>t. now - trackingDuration < t) (history rl1 ip1) @ [now]) \<and>
         (fst (limitCheck rl1 ip1 now) \<longleftrightarrow>
            \<not> blackListed rl1 ip1 \<and>
            int (length (filter (\<lambda>t. now - trackingDuration < t) (history rl1 ip1))) < rateLimit) \<and>
         (fst (sessionCheck rl1 ip1 t0 now) \<longleftrightarrow>
            \<not> brownActive rl1 ip1 t0 \<and>
            int (length (filter (\<lambda>t. now - trackingDuration < t) (history rl1 ip1))) < rateLimit) \<and>
         (sorted (readings ip pre @ [now]) \<and> (\<forall>b \<in> set (answersFor ip rl pre). b) \<longrightarrow>
            (fst (limitCheck (snd (run rl pre)) ip now) \<longleftrightarrow>
               int (length (filter (\<lambda>t. now - trackingDuration < t) (requestTimes ip pre)))
                 < rateLimit) \<and>
            (fst (sessionCheck (snd (run rl pre)) ip t0 now) \<longleftrightarrow>
               int (length (filter (\<lambda>t. now - trackingDuration < t) (requestTimes ip pre)))
                 < rateLimit))"
proof -
  have ff: "filteredRequests c xs = filter (\<lambda>t. c < t) xs" for c xs
    by (induction xs) simp_all
  have pos: "0 < trackingDuration"
    by (simp add: trackingDuration_def Second_def)
  have r: "fst (run rl cs) = map (\<lambda>k. int k < rateLimit) [0..<length cs]"
    using run_mixed [of cs ip T rl] assms by simp
  have "map (\<lambda>k. int k < rateLimit) [0..<21] = replicate 20 True @ [False]"
    by (simp add: rateLimit_def upt_rec eval_nat_numeral)
  with r have 2: "length cs = 21 \<longrightarrow> fst (run rl cs) = replicate 20 True @ [False]"
    by simp
  have 3: "requests (snd (sessionCheck rl1 ip1 t0 now)) = requests (snd (limitCheck rl1 ip1 now))"
    if "\<not> blackListed rl1 ip1 \<and> \<not> brownActive rl1 ip1 t0"
    using that by (simp add: requests_shared)
  have 4: "history (snd (limitCheck rl1 ip1 now)) ip1 =
              filter (\<lambda>t. now - trackingDuration < t) (history rl1 ip1) @ [now]"
    if "\<not> blackListed rl1 ip1"
    using that pos by (simp add: history_limitCheck ff)
  have 5: "history (snd (sessionCheck rl1 ip1 t0 now)) ip1 =
              filter (\<lambda>t. now - trackingDuration < t) (history rl1 ip1) @ [now]"
    if "\<not> brownActive rl1 ip1 t0"
    using that pos by (simp add: history_sessionCheck ff)
  have 6: "fst (limitCheck rl1 ip1 now) \<longleftrightarrow>
            \<not> blackListed rl1 ip1 \<and>
            int (length (filter (\<lambda>t. now - trackingDuration < t) (history rl1 ip1))) < rateLimit"
    using pos by (auto simp add: fst_limitCheck ff)
  have 7: "fst (sessionCheck rl1 ip1 t0 now) \<longleftrightarrow>
            \<not> brownActive rl1 ip1 t0 \<and>
            int (length (filter (\<lambda>t. now - trackingDuration < t) (history rl1 ip1))) < rateLimit"
    using pos by (auto simp add: fst_sessionCheck ff)
  have 8: "(fst (limitCheck (snd (run rl pre)) ip now) \<longleftrightarrow>
               int (length (filter (\<lambda>t. now - trackingDuration < t) (requestTimes ip pre)))
                 < rateLimit) \<and>
            (fst (sessionCheck (snd (run rl pre)) ip t0 now) \<longleftrightarrow>
               int (length (filter (\<lambda>t. now - trackingDuration < t) (requestTimes ip pre)))
                 < rateLimit)"
    if "sorted (readings ip pre @ [now]) \<and> (\<forall>b \<in> set (answersFor ip rl pre). b)"
  proof -
    from that have s: "sorted (readings ip pre @ [now])"
      and a: "\<forall>b \<in> set (answersFor ip rl pre). b"
      by blast+
    note tc = tracked_count [OF assms(2,3,4) s a]
    have "\<not> brownActive (snd (run rl pre)) ip t0"
      by (simp add: brownActive_def tc(2))
    then show ?thesis
      by (simp only: fst_limitCheck fst_sessionCheck window_count tc) simp
  qed
  from r 2 3 4 5 6 7 8 show ?thesis by blast
qed

theorem shared_window_witness:
  "fst (run newRateLimiter
     [SessionCheck ''10.0.0.7'' 0 0, LimitCheck ''10.0.0.7'' 1, SessionCheck ''10.0.0.7'' 2 2,
      LimitCheck ''10.0.0.7'' 3, SessionCheck ''10.0.0.7'' 4 4, LimitCheck ''10.0.0.7'' 5,
      SessionCheck ''10.0.0.7'' 6 6, LimitCheck ''10.0.0.7'' 7, SessionCheck ''10.0.0.7'' 8 8,
      LimitCheck ''10.0.0.7'' 9, SessionCheck ''10.0.0.7'' 10 10, LimitCheck ''10.0.0.7'' 11,
      SessionCheck ''10.0.0.7'' 12 12, LimitCheck ''10.0.0.7'' 13, SessionCheck ''10.0.0.7'' 14 14,
      LimitCheck ''10.0.0.7'' 15, SessionCheck ''10.0.0.7'' 16 16, LimitCheck ''10.0.0.7'' 17,
      SessionCheck ''10.0.0.7'' 18 18, LimitCheck ''10.0.0.7'' 19,
      SessionCheck ''10.0.0.7'' 5000000000 5000000000]) = replicate 20 True @ [False] \<and>
   \<not> fst (limitCheck (snd (run newRateLimiter
     [SessionCheck ''10.0.0.7'' 1 1, LimitCheck ''10.0.0.7'' 2, SessionCheck ''10.0.0.7'' 3 3,
      LimitCheck ''10.0.0.7'' 4, SessionCheck ''10.0.0.7'' 5 5, LimitCheck ''10.0.0.7'' 6,
      LimitCheck ''10.0.0.8'' 0, SessionCheck ''10.0.0.7'' 7 7, LimitCheck ''10.0.0.7'' 8,
      SessionCheck ''10.0.0.7'' 9 9, LimitCheck ''10.0.0.7'' 10, CleanUp (\<lambda>a. 10),
      SessionCheck ''10.0.0.7'' 11 11, LimitCheck ''10.0.0.7'' 12, SessionCheck ''10.0.0.7'' 13 13,
      LimitCheck ''10.0.0.7'' 14, SessionCheck ''10.0.0.7'' 15 15, LimitCheck ''10.0.0.7'' 16,
      SessionCheck ''10.0.0.7'' 17 17, LimitCheck ''10.0.0.7'' 18, SessionCheck ''10.0.0.7'' 19 19,
      LimitCheck ''10.0.0.7'' 20])) ''10.0.0.7'' 20000000000) \<and>
   \<not> fst (sessionCheck (snd (run newRateLimiter
     [SessionCheck ''10.0.0.7'' 1 1, LimitCheck ''10.0.0.7'' 2, SessionCheck ''10.0.0.7'' 3 3,
      LimitCheck ''10.0.0.7'' 4, SessionCheck ''10.0.0.7'' 5 5, LimitCheck ''10.0.0.7'' 6,
      LimitCheck ''10.0.0.8'' 0, SessionCheck ''10.0.0.7'' 7 7, LimitCheck ''10.0.0.7'' 8,
      SessionCheck ''10.0.0.7'' 9 9, LimitCheck ''10.0.0.7'' 10, CleanUp (\<lambda>a. 10),
      SessionCheck ''10.0.0.7'' 11 11, LimitCheck ''10.0.0.7'' 12, SessionCheck ''10.0.0.7'' 13 13,
      LimitCheck ''10.0.0.7'' 14, SessionCheck ''10.0.0.7'' 15 15, LimitCheck ''10.0.0.7'' 16,
      SessionCheck ''10.0.0.7'' 17 17, LimitCheck ''10.0.0.7'' 18, SessionCheck ''10.0.0.7'' 19 19,
      LimitCheck ''10.0.0.7'' 20])) ''10.0.0.7'' 20000000000 20000000000) \<and>
   fst (sessionCheck (snd (run newRateLimiter
     [SessionCheck ''10.0.0.7'' 1 1, LimitCheck ''10.0.0.7'' 2, SessionCheck ''10.0.0.7'' 3 3,
      LimitCheck ''10.0.0.7'' 4, SessionCheck ''10.0.0.7'' 5 5, LimitCheck ''10.0.0.7'' 6,
      LimitCheck ''10.0.0.8'' 0, SessionCheck ''10.0.0.7'' 7 7, LimitCheck ''10.0.0.7'' 8,
      SessionCheck ''10.0.0.7'' 9 9, LimitCheck ''10.0.0.7'' 10, CleanUp (\<lambda>a. 10),
      SessionCheck ''10.0.0.7'' 11 11, LimitCheck ''10.0.0.7'' 12, SessionCheck ''10.0.0.7'' 13 13,
      LimitCheck ''10.0.0.7'' 14, SessionCheck ''10.0.0.7'' 15 15, LimitCheck ''10.0.0.7'' 16,
      SessionCheck ''10.0.0.7'' 17 17, LimitCheck ''10.0.0.7'' 18, SessionCheck ''10.0.0.7'' 19 19,
      LimitCheck ''10.0.0.7'' 20])) ''10.0.0.7'' 20000000001 20000000001) \<and>
   history (snd (sessionCheck (snd (limitCheck newRateLimiter ''10.0.0.7'' 1))
     ''10.0.0.7'' 20000000002 20000000002)) ''10.0.0.7'' = [20000000002] \<and>
   history (snd (limitCheck (snd (sessionCheck newRateLimiter ''10.0.0.7'' 1 1))
     ''10.0.0.7'' 20000000002)) ''10.0.0.7'' = [20000000002]"
proof -
  let ?cs = "[SessionCheck ''10.0.0.7'' 0 0, LimitCheck ''10.0.0.7'' 1, SessionCheck ''10.0.0.7'' 2 2,
      LimitCheck ''10.0.0.7'' 3, SessionCheck ''10.0.0.7'' 4 4, LimitCheck ''10.0.0.7'' 5,
      SessionCheck ''10.0.0.7'' 6 6, LimitCheck ''10.0.0.7'' 7, SessionCheck ''10.0.0.7'' 8 8,
      LimitCheck ''10.0.0.7'' 9, SessionCheck ''10.0.0.7'' 10 10, LimitCheck ''10.0.0.7'' 11,
      SessionCheck ''10.0.0.7'' 12 12, LimitCheck ''10.0.0.7'' 13, SessionCheck ''10.0.0.7'' 14 14,
      LimitCheck ''10.0.0.7'' 15, SessionCheck ''10.0.0.7'' 16 16, LimitCheck ''10.0.0.7'' 17,
      SessionCheck ''10.0.0.7'' 18 18, LimitCheck ''10.0.0.7'' 19,
      SessionCheck ''10.0.0.7'' 5000000000 5000000000]"
  let ?pre = "[SessionCheck ''10.0.0.7'' 1 1, LimitCheck ''10.0.0.7'' 2, SessionCheck ''10.0.0.7'' 3 3,
      LimitCheck ''10.0.0.7'' 4, SessionCheck ''10.0.0.7'' 5 5, LimitCheck ''10.0.0.7'' 6,
      LimitCheck ''10.0.0.8'' 0, SessionCheck ''10.0.0.7'' 7 7, LimitCheck ''10.0.0.7'' 8,
      SessionCheck ''10.0.0.7'' 9 9, LimitCheck ''10.0.0.7'' 10, CleanUp (\<lambda>a. 10),
      SessionCheck ''10.0.0.7'' 11 11, LimitCheck ''10.0.0.7'' 12, SessionCheck ''10.0.0.7'' 13 13,
      LimitCheck ''10.0.0.7'' 14, SessionCheck ''10.0.0.7'' 15 15, LimitCheck ''10.0.0.7'' 16,
      SessionCheck ''10.0.0.7'' 17 17, LimitCheck ''10.0.0.7'' 18, SessionCheck ''10.0.0.7'' 19 19,
      LimitCheck ''10.0.0.7'' 20]"
  have a: "\<forall>c \<in> set ?cs. fromClient ''10.0.0.7'' 0 c"
    by (simp add: fromClient_def Second_def)
  have b: "history newRateLimiter ''10.0.0.7'' = []"
    by (simp add: newRateLimiter_def history_def)
  have c: "\<not> blackListed newRateLimiter ''10.0.0.7''"
    by (simp add: newRateLimiter_def blackListed_def)
  have d: "brownList newRateLimiter ''10.0.0.7'' = None"
    by (simp add: newRateLimiter_def)
  have e: "length ?cs \<le> 21" by simp
  have f: "\<forall>b \<in> set (answersFor ''10.0.0.7'' newRateLimiter ?pre). b"
    by (simp add: split_beta sessionCheck_def limitCheck_def cleanUp_def
          track_def emit_def history_def brownActive_def blackListed_def Let_def
          rateLimit_def trackingDuration_def Second_def newRateLimiter_def)
  have s0: "sorted (readings ''10.0.0.7'' ?pre @ [20000000000])"
    and s1: "sorted (readings ''10.0.0.7'' ?pre @ [20000000001])"
    by (simp_all add: readings_def)
  have n0: "\<not> int (length (filter (\<lambda>t. 20000000000 - trackingDuration < t)
              (requestTimes ''10.0.0.7'' ?pre))) < rateLimit"
    and n1: "int (length (filter (\<lambda>t. 20000000001 - trackingDuration < t)
              (requestTimes ''10.0.0.7'' ?pre))) < rateLimit"
    by (simp_all add: requestTimes_def trackingDuration_def Second_def rateLimit_def)
  note th = shared_window [OF a b c d e]
  have "length ?cs = 21 \<longrightarrow> fst (run newRateLimiter ?cs) = replicate 20 True @ [False]"
    using th by blast
  moreover have "length ?cs = 21" by simp
  ultimately have 1: "fst (run newRateLimiter ?cs) = replicate 20 True @ [False]"
    by (rule mp)
  have 2: "\<not> fst (limitCheck (snd (run newRateLimiter ?pre)) ''10.0.0.7'' 20000000000)"
    and 3: "\<not> fst (sessionCheck (snd (run newRateLimiter ?pre)) ''10.0.0.7''
               20000000000 20000000000)"
    using th [where pre = ?pre and now = 20000000000 and ?t0.0 = 20000000000] s0 f n0
    by blast+
  have 4: "fst (sessionCheck (snd (run newRateLimiter ?pre)) ''10.0.0.7''
               20000000001 20000000001)"
    using th [where pre = ?pre and now = 20000000001 and ?t0.0 = 20000000001] s1 f n1
    by blast
  have 5: "history (snd (sessionCheck (snd (limitCheck newRateLimiter ''10.0.0.7'' 1))
     ''10.0.0.7'' 20000000002 20000000002)) ''10.0.0.7'' = [20000000002]"
    and 6: "history (snd (limitCheck (snd (sessionCheck newRateLimiter ''10.0.0.7'' 1 1))
     ''10.0.0.7'' 20000000002)) ''10.0.0.7'' = [20000000002]"
    by (simp_all add: limitCheck_def sessionCheck_def track_def emit_def history_def
          blackListed_def brownActive_def Let_def rateLimit_def trackingDuration_def
          Second_def newRateLimiter_def)
  from 1 2 3 4 5 6 show ?thesis by (intro conjI)
qed


section \<open>Facts about the load balancer\<close>

lemma wrap64_id: "- (2 ^ 63) \<le> x \<Longrightarrow> x < 2 ^ 63 \<Longrightarrow> wrap64 x = x"
  by (simp add: wrap64_def)

lemma go_rem_nonneg: "0 \<le> a \<Longrightarrow> go_rem a b = a mod b"
  by (simp add: go_rem_def)

lemma go_rem_less:
  assumes "0 < b"
  shows "go_rem a b < b"
proof (cases "0 \<le> a")
  case True
  with assms show ?thesis by (simp add: go_rem_def)
next
  case False
  have "0 \<le> (- a) mod b" using assms by (rule pos_mod_sign)
  with assms have "- ((- a) mod b) < b" by linarith
  with False show ?thesis by (simp add: go_rem_def)
qed

lemma serverAt_nonneg:
  assumes "Servers lb \<noteq> []" and "0 \<le> RoundRobinCount lb"
  shows "serverAt lb =
           Inr (Servers lb ! nat (RoundRobinCount lb mod int (length (Servers lb))))"
proof -
  have "0 \<le> RoundRobinCount lb mod int (length (Servers lb))"
    using assms(1) by (intro pos_mod_sign) simp
  then have "\<not> RoundRobinCount lb mod int (length (Servers lb)) < 0"
    by (simp only: not_less)
  then show ?thesis
    using assms by (simp add: serverAt_def Let_def go_rem_nonneg)
qed

lemma serverAt_mem:
  assumes "serverAt lb = Inr s"
  shows "s \<in> set (Servers lb)"
proof -
  let ?n = "int (length (Servers lb))"
  let ?i = "go_rem (RoundRobinCount lb) ?n"
  from assms have n: "0 < ?n" and i: "0 \<le> ?i" and s: "s = Servers lb ! nat ?i"
    by (auto simp: serverAt_def Let_def split: if_splits)
  from n have "?i < ?n" by (rule go_rem_less)
  with i have "nat ?i < length (Servers lb)" by simp
  with s show ?thesis by simp
qed

lemma advance_fields [simp]:
  "Servers (advance lb) = Servers lb"
  "SessionTable (advance lb) = SessionTable lb"
  "Algorithm (advance lb) = Algorithm lb"
  "Port (advance lb) = Port lb"
  by (simp_all add: advance_def)

lemma advance_count:
  "0 \<le> RoundRobinCount lb \<Longrightarrow> RoundRobinCount lb + 1 < 2 ^ 63 \<Longrightarrow>
   advance lb = lb\<lparr>RoundRobinCount := RoundRobinCount lb + 1\<rparr>"
  by (simp add: advance_def wrap64_id)

lemma probe_finds:
  assumes "Servers lb \<noteq> []" and "0 \<le> RoundRobinCount lb"
    and "RoundRobinCount lb + int k + 1 < 2 ^ 63"
    and "\<forall>j<k. \<not> IsAlive (st (Servers lb !
            nat ((RoundRobinCount lb + int j) mod int (length (Servers lb)))))"
    and "IsAlive (st (Servers lb !
            nat ((RoundRobinCount lb + int k) mod int (length (Servers lb)))))"
    and "k \<le> fuel"
    and "server = Servers lb ! nat (RoundRobinCount lb mod int (length (Servers lb)))"
  shows "probe fuel st lb server =
           (Returns (Servers lb !
              nat ((RoundRobinCount lb + int k) mod int (length (Servers lb)))),
            lb\<lparr>RoundRobinCount := RoundRobinCount lb + int k + 1\<rparr>)"
  using assms
proof (induction k arbitrary: lb fuel server)
  case 0
  then have "IsAlive (st server)" by simp
  moreover have "advance lb = lb\<lparr>RoundRobinCount := RoundRobinCount lb + 1\<rparr>"
    using 0 by (intro advance_count) simp_all
  ultimately show ?case using 0 by (cases fuel) simp_all
next
  case (Suc k)
  from Suc.prems(4) have dead: "\<not> IsAlive (st server)"
    using Suc.prems(7) by (auto dest: spec[of _ 0])
  from Suc.prems(6) obtain fuel' where fuel: "fuel = Suc fuel'" and k: "k \<le> fuel'"
    by (cases fuel) auto
  let ?lb = "lb\<lparr>RoundRobinCount := RoundRobinCount lb + 1\<rparr>"
  have adv: "advance lb = ?lb"
    using Suc.prems by (intro advance_count) simp_all
  have at: "serverAt ?lb = Inr (Servers lb ! nat ((RoundRobinCount lb + 1) mod int (length (Servers lb))))"
    using Suc.prems(1,2) by (subst serverAt_nonneg) simp_all
  have shift: "RoundRobinCount lb + 1 + int j = RoundRobinCount lb + int (Suc j)" for j
    by simp
  have "probe fuel' st ?lb (Servers lb ! nat ((RoundRobinCount lb + 1) mod int (length (Servers lb)))) =
          (Returns (Servers ?lb !
              nat ((RoundRobinCount ?lb + int k) mod int (length (Servers ?lb)))),
            ?lb\<lparr>RoundRobinCount := RoundRobinCount ?lb + int k + 1\<rparr>)"
  proof (rule Suc.IH)
    show "Servers ?lb \<noteq> []" using Suc.prems(1) by simp
    show "0 \<le> RoundRobinCount ?lb" using Suc.prems(2) by simp
    show "RoundRobinCount ?lb + int k + 1 < 2 ^ 63" using Suc.prems(3) by simp
    show "\<forall>j<k. \<not> IsAlive (st (Servers ?lb !
            nat ((RoundRobinCount ?lb + int j) mod int (length (Servers ?lb)))))"
      using Suc.prems(4) by (auto simp: shift simp del: of_nat_Suc)
    show "IsAlive (st (Servers ?lb !
            nat ((RoundRobinCount ?lb + int k) mod int (length (Servers ?lb)))))"
      using Suc.prems(5) by (simp add: shift del: of_nat_Suc)
    show "k \<le> fuel'" by (rule k)
    show "Servers lb ! nat ((RoundRobinCount lb + 1) mod int (length (Servers lb))) =
            Servers ?lb ! nat (RoundRobinCount ?lb mod int (length (Servers ?lb)))"
      by simp
  qed
  moreover have "RoundRobinCount lb + 1 + int k = RoundRobinCount lb + int (Suc k)"
    by simp
  ultimately have "probe fuel' st ?lb
          (Servers lb ! nat ((RoundRobinCount lb + 1) mod int (length (Servers lb)))) =
          (Returns (Servers lb !
              nat ((RoundRobinCount lb + int (Suc k)) mod int (length (Servers lb)))),
            lb\<lparr>RoundRobinCount := RoundRobinCount lb + int (Suc k) + 1\<rparr>)"
    by (simp del: of_nat_Suc)
  then show ?case
    using dead by (simp add: fuel adv at Let_def del: of_nat_Suc)
qed

lemma probe_Returns:
  "fst (probe fuel st lb server) = Returns s \<Longrightarrow> server \<in> set (Servers lb) \<Longrightarrow>
   IsAlive (st s) \<and> s \<in> set (Servers lb)"
proof (induction fuel arbitrary: lb server)
  case 0
  then show ?case by (auto split: if_splits)
next
  case (Suc fuel)
  show ?case
  proof (cases "IsAlive (st server)")
    case True
    with Suc.prems show ?thesis by simp
  next
    case False
    show ?thesis
    proof (cases "serverAt (advance lb)")
      case (Inl e)
      with False Suc.prems show ?thesis by (simp add: Let_def)
    next
      case (Inr server')
      then have "server' \<in> set (Servers (advance lb))"
        by (rule serverAt_mem)
      with Suc.IH [of "advance lb" server'] False Suc.prems Inr show ?thesis
        by (simp add: Let_def)
    qed
  qed
qed

lemma GetNextAvailableServer_Returns:
  assumes "fst (GetNextAvailableServer fuel st lb) = Returns s"
  shows "IsAlive (st s) \<and> s \<in> set (Servers lb)"
proof (cases "serverAt lb")
  case (Inl e)
  with assms show ?thesis by (simp add: GetNextAvailableServer_def)
next
  case (Inr server)
  then have "server \<in> set (Servers lb)"
    by (rule serverAt_mem)
  with assms Inr probe_Returns [of fuel st lb server s] show ?thesis
    by (simp add: GetNextAvailableServer_def)
qed

lemma serverAt_single: "Servers lb = [s] \<Longrightarrow> serverAt lb = Inr s"
  by (simp add: serverAt_def go_rem_def Let_def)

lemma probe_single_dead:
  assumes "Servers lb = [s]" and "\<not> IsAlive (st s)"
  shows "fst (probe fuel st lb s) = NoReturn"
  using assms
proof (induction fuel arbitrary: lb)
  case 0
  then show ?case by simp
next
  case (Suc fuel)
  have "serverAt (advance lb) = Inr s"
    using Suc.prems(1) by (intro serverAt_single) simp
  moreover have "fst (probe fuel st (advance lb) s) = NoReturn"
    using Suc.prems by (intro Suc.IH) simp_all
  ultimately show ?case using Suc.prems(2) by (simp add: Let_def)
qed

lemma single_dead_backend:
  assumes "Servers lb = [s]" and "\<not> IsAlive (st s)"
  shows "fst (GetNextAvailableServer fuel st lb) = NoReturn"
  using assms by (simp add: GetNextAvailableServer_def serverAt_single probe_single_dead)

text \<open>
  Claim C4, as the code has it. When some backend of the pool is alive, the cursor is
  not negative and the cursor plus the length of the pool is below \<open>2^63\<close>,
  \<open>GetNextAvailableServer\<close> returns after at most as many probes as the pool has
  backends: it returns the first alive backend at or after the cursor position, in
  registration order taken cyclically, skips the dead ones before it, and leaves the
  cursor one past it. Whenever the call returns a backend, that backend is alive and in
  the pool.
\<close>

theorem GetNextAvailableServer_next_alive:
  assumes "0 \<le> RoundRobinCount lb"
    and "RoundRobinCount lb + int (length (Servers lb)) < 2 ^ 63"
    and "\<exists>s \<in> set (Servers lb). IsAlive (st s)"
    and "length (Servers lb) \<le> Suc fuel"
  shows "(\<exists>k < length (Servers lb).
            GetNextAvailableServer fuel st lb =
              (Returns (Servers lb !
                 nat ((RoundRobinCount lb + int k) mod int (length (Servers lb)))),
               lb\<lparr>RoundRobinCount := RoundRobinCount lb + int k + 1\<rparr>) \<and>
            IsAlive (st (Servers lb !
                 nat ((RoundRobinCount lb + int k) mod int (length (Servers lb))))) \<and>
            (\<forall>j<k. \<not> IsAlive (st (Servers lb !
                 nat ((RoundRobinCount lb + int j) mod int (length (Servers lb))))))) \<and>
         (\<forall>fuel' st' lb' s. fst (GetNextAvailableServer fuel' st' lb') = Returns s \<longrightarrow>
            IsAlive (st' s) \<and> s \<in> set (Servers lb'))"
proof -
  let ?n = "length (Servers lb)"
  let ?c = "RoundRobinCount lb"
  let ?at = "\<lambda>k. Servers lb ! nat ((?c + int k) mod int ?n)"
  from assms(3) obtain i where i: "i < ?n" and alive: "IsAlive (st (Servers lb ! i))"
    by (auto simp: in_set_conv_nth)
  then have ne: "Servers lb \<noteq> []" by auto
  define m where "m = nat ((int i - ?c) mod int ?n)"
  have m: "m < ?n"
    using ne by (simp add: m_def nat_less_iff)
  have "(?c + int m) mod int ?n = int i"
    using ne i by (simp add: m_def mod_add_right_eq)
  then have am: "IsAlive (st (?at m))"
    using alive by simp
  define k where "k = (LEAST k. IsAlive (st (?at k)))"
  have ak: "IsAlive (st (?at k))"
    unfolding k_def using am by (rule LeastI)
  have km: "k \<le> m"
    unfolding k_def using am by (rule Least_le)
  have dead: "\<forall>j<k. \<not> IsAlive (st (?at j))"
    unfolding k_def using not_less_Least by blast
  have "probe fuel st lb (Servers lb ! nat (?c mod int ?n)) =
          (Returns (?at k), lb\<lparr>RoundRobinCount := ?c + int k + 1\<rparr>)"
    using ne assms(1) _ dead ak
  proof (rule probe_finds)
    show "?c + int k + 1 < 2 ^ 63" using assms(2) km m by simp
    show "k \<le> fuel" using assms(4) km m by simp
  qed simp
  then have "GetNextAvailableServer fuel st lb =
          (Returns (?at k), lb\<lparr>RoundRobinCount := ?c + int k + 1\<rparr>)"
    using ne assms(1) by (simp add: GetNextAvailableServer_def serverAt_nonneg)
  with ak dead km m show ?thesis
    using GetNextAvailableServer_Returns by (intro conjI exI [of _ k]) auto
qed

text \<open>
  Claim C4 as stated fails: on a pool of three backends, none alive, the call has
  neither returned nor failed after four probes (three iterations of its loop), and
  goes on probing. On a pool of one backend that is not alive it probes for ever
  (\<open>single_dead_backend\<close>).
\<close>

theorem dead_pool_not_bounded:
  "GetNextAvailableServer 3
     (\<lambda>r. \<lparr>Address = ''http://127.0.0.1:9000/'', IsAlive = False, ActiveConn = 0\<rparr>)
     (NewLoadbalancer ''8080'' [0, 1, 2] ''rr'') =
   (NoReturn, (NewLoadbalancer ''8080'' [0, 1, 2] ''rr'')\<lparr>RoundRobinCount := 3\<rparr>)"
  by (simp add: GetNextAvailableServer_def serverAt_def advance_def wrap64_def go_rem_def
        NewLoadbalancer_def Let_def eval_nat_numeral)

theorem GetNextAvailableServer_next_alive_witness:
  "GetNextAvailableServer 2
     (\<lambda>r. \<lparr>Address = ''http://127.0.0.1:9000/'', IsAlive = (r = 2), ActiveConn = 0\<rparr>)
     ((NewLoadbalancer ''8080'' [0, 1, 2] ''rr'')\<lparr>RoundRobinCount := 4\<rparr>) =
   (Returns 2, (NewLoadbalancer ''8080'' [0, 1, 2] ''rr'')\<lparr>RoundRobinCount := 6\<rparr>)"
proof -
  let ?st = "\<lambda>r::nat. \<lparr>Address = ''http://127.0.0.1:9000/'', IsAlive = (r = 2), ActiveConn = 0\<rparr>"
  let ?lb = "(NewLoadbalancer ''8080'' [0, 1, 2] ''rr'')\<lparr>RoundRobinCount := 4\<rparr>"
  have a: "0 \<le> RoundRobinCount ?lb" by simp
  have b: "RoundRobinCount ?lb + int (length (Servers ?lb)) < 2 ^ 63"
    by (simp add: NewLoadbalancer_def)
  have c: "\<exists>s \<in> set (Servers ?lb). IsAlive (?st s)"
    by (simp add: NewLoadbalancer_def)
  have d: "length (Servers ?lb) \<le> Suc 2"
    by (simp add: NewLoadbalancer_def)
  from GetNextAvailableServer_next_alive [OF a b c d]
  obtain k where k: "k < 3"
    and r: "GetNextAvailableServer 2 ?st ?lb =
              (Returns ([0, 1, 2] ! nat ((4 + int k) mod 3)), ?lb\<lparr>RoundRobinCount := 4 + int k + 1\<rparr>)"
    and al: "IsAlive (?st ([0, 1, 2] ! nat ((4 + int k) mod 3)))"
    by (auto simp: NewLoadbalancer_def)
  from k have "k = 0 \<or> k = 1 \<or> k = 2" by auto
  with al have "k = 1" by auto
  with r show ?thesis by (simp add: NewLoadbalancer_def)
qed

lemma leastConn_Some:
  "(leastConn st (Some s) xs = Some s \<and>
      (\<forall>x \<in> set xs. IsAlive (st x) \<longrightarrow> ActiveConn (st s) \<le> ActiveConn (st x))) \<or>
   (\<exists>i < length xs. leastConn st (Some s) xs = Some (xs ! i) \<and> IsAlive (st (xs ! i)) \<and>
      ActiveConn (st (xs ! i)) < ActiveConn (st s) \<and>
      (\<forall>x \<in> set xs. IsAlive (st x) \<longrightarrow> ActiveConn (st (xs ! i)) \<le> ActiveConn (st x)) \<and>
      (\<forall>j<i. IsAlive (st (xs ! j)) \<longrightarrow> ActiveConn (st (xs ! i)) < ActiveConn (st (xs ! j))))"
  (is "?keep s xs \<or> ?take s xs")
proof (induction xs arbitrary: s)
  case Nil
  then show ?case by simp
next
  case (Cons x xs)
  have shift: "?take s (x # xs)"
    if i: "i < length xs" and r: "leastConn st (Some s) (x # xs) = Some (xs ! i)"
      and al: "IsAlive (st (xs ! i))" and lt: "ActiveConn (st (xs ! i)) < ActiveConn (st s)"
      and mn: "\<forall>y \<in> set xs. IsAlive (st y) \<longrightarrow> ActiveConn (st (xs ! i)) \<le> ActiveConn (st y)"
      and fs: "\<forall>j<i. IsAlive (st (xs ! j)) \<longrightarrow> ActiveConn (st (xs ! i)) < ActiveConn (st (xs ! j))"
      and x: "IsAlive (st x) \<longrightarrow> ActiveConn (st (xs ! i)) < ActiveConn (st x)"
    for i s
  proof (intro exI [of _ "Suc i"] conjI)
    show "\<forall>j<Suc i. IsAlive (st ((x # xs) ! j)) \<longrightarrow>
            ActiveConn (st ((x # xs) ! Suc i)) < ActiveConn (st ((x # xs) ! j))"
      using fs x by (auto simp: nth_Cons')
    show "\<forall>y \<in> set (x # xs). IsAlive (st y) \<longrightarrow>
            ActiveConn (st ((x # xs) ! Suc i)) \<le> ActiveConn (st y)"
      using mn x by auto
  qed (use i r al lt in simp_all)
  show ?case
  proof (cases "IsAlive (st x) \<and> ActiveConn (st x) < ActiveConn (st s)")
    case True
    then have eq: "leastConn st (Some s) (x # xs) = leastConn st (Some x) xs" by simp
    from Cons.IH [of x] show ?thesis
    proof
      assume k: "?keep x xs"
      have "?take s (x # xs)"
        using True k by (intro exI [of _ 0]) (auto simp: eq)
      then show ?thesis ..
    next
      assume "?take x xs"
      then obtain i where "i < length xs" "leastConn st (Some x) xs = Some (xs ! i)"
        "IsAlive (st (xs ! i))" "ActiveConn (st (xs ! i)) < ActiveConn (st x)"
        "\<forall>y \<in> set xs. IsAlive (st y) \<longrightarrow> ActiveConn (st (xs ! i)) \<le> ActiveConn (st y)"
        "\<forall>j<i. IsAlive (st (xs ! j)) \<longrightarrow> ActiveConn (st (xs ! i)) < ActiveConn (st (xs ! j))"
        by blast
      with True have "?take s (x # xs)"
        by (intro shift [of i]) (auto simp: eq)
      then show ?thesis ..
    qed
  next
    case False
    then have eq: "leastConn st (Some s) (x # xs) = leastConn st (Some s) xs" by auto
    from Cons.IH [of s] show ?thesis
    proof
      assume "?keep s xs"
      with False have "?keep s (x # xs)" by (auto simp: eq)
      then show ?thesis ..
    next
      assume "?take s xs"
      then obtain i where "i < length xs" "leastConn st (Some s) xs = Some (xs ! i)"
        "IsAlive (st (xs ! i))" "ActiveConn (st (xs ! i)) < ActiveConn (st s)"
        "\<forall>y \<in> set xs. IsAlive (st y) \<longrightarrow> ActiveConn (st (xs ! i)) \<le> ActiveConn (st y)"
        "\<forall>j<i. IsAlive (st (xs ! j)) \<longrightarrow> ActiveConn (st (xs ! i)) < ActiveConn (st (xs ! j))"
        by blast
      with False have "?take s (x # xs)"
        by (intro shift [of i]) (auto simp: eq)
      then show ?thesis ..
    qed
  qed
qed

lemma leastConn_None:
  "(leastConn st None xs = None \<and> (\<forall>x \<in> set xs. \<not> IsAlive (st x))) \<or>
   (\<exists>i < length xs. leastConn st None xs = Some (xs ! i) \<and> IsAlive (st (xs ! i)) \<and>
      (\<forall>x \<in> set xs. IsAlive (st x) \<longrightarrow> ActiveConn (st (xs ! i)) \<le> ActiveConn (st x)) \<and>
      (\<forall>j<i. IsAlive (st (xs ! j)) \<longrightarrow> ActiveConn (st (xs ! i)) < ActiveConn (st (xs ! j))))"
  (is "?none xs \<or> ?some xs")
proof (induction xs)
  case Nil
  then show ?case by simp
next
  case (Cons x xs)
  show ?case
  proof (cases "IsAlive (st x)")
    case False
    then have eq: "leastConn st None (x # xs) = leastConn st None xs" by simp
    from Cons.IH show ?thesis
    proof
      assume "?none xs"
      with False have "?none (x # xs)" by (simp add: eq)
      then show ?thesis ..
    next
      assume "?some xs"
      then obtain i where i: "i < length xs" "leastConn st None xs = Some (xs ! i)"
        "IsAlive (st (xs ! i))"
        "\<forall>y \<in> set xs. IsAlive (st y) \<longrightarrow> ActiveConn (st (xs ! i)) \<le> ActiveConn (st y)"
        "\<forall>j<i. IsAlive (st (xs ! j)) \<longrightarrow> ActiveConn (st (xs ! i)) < ActiveConn (st (xs ! j))"
        by blast
      have "?some (x # xs)"
      proof (intro exI [of _ "Suc i"] conjI)
        show "\<forall>j<Suc i. IsAlive (st ((x # xs) ! j)) \<longrightarrow>
                ActiveConn (st ((x # xs) ! Suc i)) < ActiveConn (st ((x # xs) ! j))"
          using i(5) False by (auto simp: nth_Cons')
      qed (use i False in \<open>simp_all add: eq\<close>)
      then show ?thesis ..
    qed
  next
    case True
    then have eq: "leastConn st None (x # xs) = leastConn st (Some x) xs" by simp
    from leastConn_Some [of st x xs] show ?thesis
    proof
      assume "leastConn st (Some x) xs = Some x \<and>
        (\<forall>y \<in> set xs. IsAlive (st y) \<longrightarrow> ActiveConn (st x) \<le> ActiveConn (st y))"
      with True have "?some (x # xs)"
        by (intro exI [of _ 0]) (auto simp: eq)
      then show ?thesis ..
    next
      assume "\<exists>i < length xs. leastConn st (Some x) xs = Some (xs ! i) \<and> IsAlive (st (xs ! i)) \<and>
        ActiveConn (st (xs ! i)) < ActiveConn (st x) \<and>
        (\<forall>y \<in> set xs. IsAlive (st y) \<longrightarrow> ActiveConn (st (xs ! i)) \<le> ActiveConn (st y)) \<and>
        (\<forall>j<i. IsAlive (st (xs ! j)) \<longrightarrow> ActiveConn (st (xs ! i)) < ActiveConn (st (xs ! j)))"
      then obtain i where i: "i < length xs" "leastConn st (Some x) xs = Some (xs ! i)"
        "IsAlive (st (xs ! i))" "ActiveConn (st (xs ! i)) < ActiveConn (st x)"
        "\<forall>y \<in> set xs. IsAlive (st y) \<longrightarrow> ActiveConn (st (xs ! i)) \<le> ActiveConn (st y)"
        "\<forall>j<i. IsAlive (st (xs ! j)) \<longrightarrow> ActiveConn (st (xs ! i)) < ActiveConn (st (xs ! j))"
        by blast
      have "?some (x # xs)"
      proof (intro exI [of _ "Suc i"] conjI)
        show "\<forall>j<Suc i. IsAlive (st ((x # xs) ! j)) \<longrightarrow>
                ActiveConn (st ((x # xs) ! Suc i)) < ActiveConn (st ((x # xs) ! j))"
          using i(4,6) by (auto simp: nth_Cons')
        show "\<forall>y \<in> set (x # xs). IsAlive (st y) \<longrightarrow>
                ActiveConn (st ((x # xs) ! Suc i)) \<le> ActiveConn (st y)"
          using i(4,5) by auto
      qed (use i True in \<open>simp_all add: eq\<close>)
      then show ?thesis ..
    qed
  qed
qed

text \<open>
  Claim C6, as the code has it. \<open>GetLeastConnServer\<close> returns nil, no backend,
  exactly when no backend of the pool is alive. Otherwise it returns an alive backend
  of the pool whose \<open>ActiveConn\<close> is at most that of every alive backend and
  strictly below that of every alive backend at an earlier position: the minimum, and
  among equal counts the earliest. Under the algorithm \<open>lc\<close> the selection for a
  request without session header returns what \<open>GetLeastConnServer\<close> returns, nil
  included, and does not fail.
\<close>

theorem GetLeastConnServer_minimum:
  "(case GetLeastConnServer st lb of
      None \<Rightarrow> \<forall>s \<in> set (Servers lb). \<not> IsAlive (st s)
    | Some s \<Rightarrow>
        \<exists>i < length (Servers lb). s = Servers lb ! i \<and> IsAlive (st s) \<and>
          (\<forall>x \<in> set (Servers lb). IsAlive (st x) \<longrightarrow> ActiveConn (st s) \<le> ActiveConn (st x)) \<and>
          (\<forall>j<i. IsAlive (st (Servers lb ! j)) \<longrightarrow>
             ActiveConn (st s) < ActiveConn (st (Servers lb ! j)))) \<and>
   ((\<forall>s \<in> set (Servers lb). \<not> IsAlive (st s)) \<longrightarrow> GetLeastConnServer st lb = None) \<and>
   (Algorithm lb = ''lc'' \<longrightarrow>
      selectTarget fuel '''' st lb = (Returns (GetLeastConnServer st lb), lb))"
proof -
  have "selectTarget fuel '''' st lb = (Returns (GetLeastConnServer st lb), lb)"
    if "Algorithm lb = ''lc''"
    using that by (simp add: selectTarget_def)
  then show ?thesis
    using leastConn_None [of st "Servers lb"]
    by (auto simp: GetLeastConnServer_def)
qed

text \<open>
  Claim C6 as stated fails: on a pool of three backends, none alive, the selection
  under \<open>lc\<close> does not fail; it returns the nil server, and the request then ends in
  the nil dereference of \<open>ServeProxy\<close>.
\<close>

theorem dead_pool_least_conn_returns_nil:
  "selectTarget 0 ''''
     (\<lambda>r. \<lparr>Address = ''http://127.0.0.1:9000/'', IsAlive = False, ActiveConn = 0\<rparr>)
     (NewLoadbalancer ''8080'' [0, 1, 2] ''lc'') =
     (Returns None, NewLoadbalancer ''8080'' [0, 1, 2] ''lc'') \<and>
   ServeProxy 0 ''''
     (\<lambda>r. \<lparr>Address = ''http://127.0.0.1:9000/'', IsAlive = False, ActiveConn = 0\<rparr>,
      NewLoadbalancer ''8080'' [0, 1, 2] ''lc'') =
     (Panics NilDereference,
      \<lambda>r. \<lparr>Address = ''http://127.0.0.1:9000/'', IsAlive = False, ActiveConn = 0\<rparr>,
      NewLoadbalancer ''8080'' [0, 1, 2] ''lc'')"
  by (simp add: ServeProxy_def selectTarget_def GetLeastConnServer_def NewLoadbalancer_def)

theorem GetLeastConnServer_minimum_witness:
  "GetLeastConnServer
     (\<lambda>r. \<lparr>Address = ''http://127.0.0.1:9000/'', IsAlive = True,
            ActiveConn = (if r = 0 then 2 else if r = 1 then 0 else 1)\<rparr>)
     (NewLoadbalancer ''8080'' [0, 1, 2] ''lc'') = Some 1 \<and>
   GetLeastConnServer
     (\<lambda>r. \<lparr>Address = ''http://127.0.0.1:9000/'', IsAlive = False, ActiveConn = 0\<rparr>)
     (NewLoadbalancer ''8080'' [0, 1, 2] ''lc'') = None"
proof -
  let ?st = "\<lambda>r::nat. \<lparr>Address = ''http://127.0.0.1:9000/'', IsAlive = True,
            ActiveConn = (if r = 0 then 2 else if r = 1 then 0 else 1)\<rparr>"
  let ?dead = "\<lambda>r::nat. \<lparr>Address = ''http://127.0.0.1:9000/'', IsAlive = False, ActiveConn = 0\<rparr>"
  let ?lb = "NewLoadbalancer ''8080'' [0, 1, 2] ''lc''"
  note th = GetLeastConnServer_minimum [where st = ?st and lb = ?lb]
  have "GetLeastConnServer ?st ?lb = Some 1"
  proof (cases "GetLeastConnServer ?st ?lb")
    case None
    with th have "\<forall>x \<in> set (Servers ?lb). \<not> IsAlive (?st x)" by simp
    moreover have "0 \<in> set (Servers ?lb)" by (simp add: NewLoadbalancer_def)
    ultimately have "\<not> IsAlive (?st 0)" by blast
    then show ?thesis by simp
  next
    case (Some r)
    note th [THEN conjunct1, unfolded Some option.case]
    then have "\<forall>x \<in> set (Servers ?lb). IsAlive (?st x) \<longrightarrow>
        ActiveConn (?st r) \<le> ActiveConn (?st x)"
      by blast
    moreover have "1 \<in> set (Servers ?lb)" by (simp add: NewLoadbalancer_def)
    ultimately have "IsAlive (?st 1) \<longrightarrow> ActiveConn (?st r) \<le> ActiveConn (?st 1)"
      by (rule bspec)
    then have "ActiveConn (?st r) \<le> 0" by simp
    then have "r = 1" by (simp split: if_splits)
    with Some show ?thesis by simp
  qed
  moreover have "\<forall>x \<in> set (Servers ?lb). \<not> IsAlive (?dead x)" by simp
  then have "GetLeastConnServer ?dead ?lb = None"
    using GetLeastConnServer_minimum [where st = ?dead and lb = ?lb] by blast
  ultimately show ?thesis by simp
qed

lemma probe_fields:
  "SessionTable (snd (probe fuel st lb server)) = SessionTable lb \<and>
   Servers (snd (probe fuel st lb server)) = Servers lb \<and>
   Algorithm (snd (probe fuel st lb server)) = Algorithm lb"
proof (induction fuel arbitrary: lb server)
  case 0
  then show ?case by simp
next
  case (Suc fuel)
  show ?case
  proof (cases "serverAt (advance lb)")
    case (Inl e)
    then show ?thesis by (simp add: Let_def)
  next
    case (Inr server')
    with Suc.IH [of "advance lb" server'] show ?thesis by (simp add: Let_def)
  qed
qed

lemma GetNextAvailableServer_fields:
  "SessionTable (snd (GetNextAvailableServer fuel st lb)) = SessionTable lb"
  "Servers (snd (GetNextAvailableServer fuel st lb)) = Servers lb"
  "Algorithm (snd (GetNextAvailableServer fuel st lb)) = Algorithm lb"
  by (simp_all add: GetNextAvailableServer_def probe_fields split: sum.splits)

lemma ServeProxy_bound:
  assumes "sessionID \<noteq> ''''" and "SessionTable lb sessionID = Some s"
  shows "ServeProxy fuel sessionID (st, lb) = (Returns s, IncActiveConn st s, lb)"
  using assms by (simp add: ServeProxy_def selectTarget_def)

lemma ServeProxy_unbound:
  assumes "sessionID \<noteq> ''''" and "SessionTable lb sessionID = None"
  shows "ServeProxy fuel sessionID (st, lb) =
           (case GetNextAvailableServer fuel st lb of
              (Returns s', lb') \<Rightarrow>
                (Returns s', IncActiveConn st s',
                 lb'\<lparr>SessionTable := (SessionTable lb')(sessionID \<mapsto> s')\<rparr>)
            | (Panics e, lb') \<Rightarrow> (Panics e, st, lb')
            | (NoReturn, lb') \<Rightarrow> (NoReturn, st, lb'))"
  using assms
  by (simp add: ServeProxy_def selectTarget_def withSome_def split: prod.splits result.splits)

lemma ServeProxy_records:
  assumes "sessionID \<noteq> ''''" and "fst (ServeProxy fuel sessionID (st, lb)) = Returns s"
  shows "SessionTable (snd (snd (ServeProxy fuel sessionID (st, lb)))) sessionID = Some s"
proof (cases "SessionTable lb sessionID")
  case None
  with assms show ?thesis
    by (auto simp: ServeProxy_unbound split: prod.splits result.splits)
next
  case (Some s')
  with assms show ?thesis by (simp add: ServeProxy_bound)
qed

lemma SessionTable_ServeProxy:
  assumes "SessionTable lb T = Some s"
  shows "SessionTable (snd (snd (ServeProxy fuel sessionID (st, lb)))) T = Some s"
proof (cases "sessionID = ''''")
  case True
  with assms GetNextAvailableServer_fields(1) [of fuel st lb] show ?thesis
    by (auto simp: ServeProxy_def selectTarget_def withSome_def
          split: prod.splits result.splits option.splits)
next
  case False
  show ?thesis
  proof (cases "SessionTable lb sessionID")
    case None
    with assms have "sessionID \<noteq> T" by auto
    with assms None False GetNextAvailableServer_fields(1) [of fuel st lb] show ?thesis
      by (auto simp: ServeProxy_unbound split: prod.splits result.splits)
  next
    case (Some s')
    with assms False show ?thesis by (simp add: ServeProxy_bound)
  qed
qed

lemma SessionTable_serveAll:
  assumes "SessionTable (snd w) T = Some s"
  shows "SessionTable (snd (serveAll rs w)) T = Some s"
  using assms
proof (induction rs arbitrary: w)
  case Nil
  then show ?case by simp
next
  case (Cons r rs)
  obtain fuel sessionID where r: "r = (fuel, sessionID)" by (cases r)
  obtain st lb where w: "w = (st, lb)" by (cases w)
  from Cons.prems have "SessionTable (snd (snd (ServeProxy fuel sessionID w))) T = Some s"
    by (simp add: w SessionTable_ServeProxy)
  then show ?case by (simp add: r Cons.IH)
qed

text \<open>
  Claim C5, as the code has it. For a request with a session header: when the header
  is bound in \<open>SessionTable\<close>, \<open>ServeProxy\<close> forwards to the bound backend
  and leaves the load balancer, its cursor included, as it is, whatever the algorithm.
  When it is not bound, the backend is the one \<open>GetNextAvailableServer\<close> returns
  (round robin), whatever the algorithm, and the binding is recorded. Whenever such a
  request is forwarded to a backend, the header is bound to that backend afterwards.
  A binding stays through any further requests, and every later request with the
  header is forwarded to the bound backend.
\<close>

theorem sticky_session:
  assumes "sessionID \<noteq> ''''"
  shows "(SessionTable lb sessionID = Some s \<longrightarrow>
            ServeProxy fuel sessionID (st, lb) = (Returns s, IncActiveConn st s, lb)) \<and>
         (SessionTable lb sessionID = None \<longrightarrow>
            ServeProxy fuel sessionID (st, lb) =
              (case GetNextAvailableServer fuel st lb of
                 (Returns s', lb') \<Rightarrow>
                   (Returns s', IncActiveConn st s',
                    lb'\<lparr>SessionTable := (SessionTable lb')(sessionID \<mapsto> s')\<rparr>)
               | (Panics e, lb') \<Rightarrow> (Panics e, st, lb')
               | (NoReturn, lb') \<Rightarrow> (NoReturn, st, lb'))) \<and>
         (fst (ServeProxy fuel sessionID (st, lb)) = Returns s \<longrightarrow>
            SessionTable (snd (snd (ServeProxy fuel sessionID (st, lb)))) sessionID = Some s) \<and>
         (SessionTable lb sessionID = Some s \<longrightarrow>
            SessionTable (snd (serveAll rs (st, lb))) sessionID = Some s \<and>
            fst (ServeProxy fuel' sessionID (serveAll rs (st, lb))) = Returns s)"
proof -
  have "fst (ServeProxy fuel' sessionID (serveAll rs (st, lb))) = Returns s"
    if "SessionTable lb sessionID = Some s"
  proof -
    obtain st' lb' where w: "serveAll rs (st, lb) = (st', lb')"
      by (cases "serveAll rs (st, lb)")
    have "SessionTable (snd (serveAll rs (st, lb))) sessionID = Some s"
      using that by (intro SessionTable_serveAll) simp
    then have "SessionTable lb' sessionID = Some s" by (simp add: w)
    with assms show ?thesis by (simp add: w ServeProxy_bound)
  qed
  then show ?thesis
    using assms
    by (auto simp: ServeProxy_bound ServeProxy_unbound ServeProxy_records
          intro: SessionTable_serveAll)
qed

theorem sticky_session_witness:
  "fst (ServeProxy 0 ''s1'' (main_store, main_lb)) = Returns 0 \<and>
   fst (ServeProxy 0 ''s1''
     (serveAll [(0, ''''), (0, ''s2''), (0, '''')]
        (snd (ServeProxy 0 ''s1'' (main_store, main_lb))))) = Returns 0"
proof -
  obtain st1 lb1 where w: "snd (ServeProxy 0 ''s1'' (main_store, main_lb)) = (st1, lb1)"
    by (cases "snd (ServeProxy 0 ''s1'' (main_store, main_lb))")
  have ne: "''s1'' \<noteq> ''''" by simp
  have r: "fst (ServeProxy 0 ''s1'' (main_store, main_lb)) = Returns 0"
    by (simp add: ServeProxy_def selectTarget_def withSome_def GetNextAvailableServer_def
          serverAt_def go_rem_def main_lb_def main_store_def NewLoadbalancer_def NewServer_def
          Let_def)
  with sticky_session [OF ne, of main_lb 0 0 main_store]
  have "SessionTable (snd (snd (ServeProxy 0 ''s1'' (main_store, main_lb)))) ''s1'' = Some 0"
    by blast
  then have "SessionTable lb1 ''s1'' = Some 0" by (simp add: w)
  with sticky_session [OF ne, of lb1 0 _ st1 "[(0, ''''), (0, ''s2''), (0, '''')]" 0]
  have "fst (ServeProxy 0 ''s1'' (serveAll [(0, ''''), (0, ''s2''), (0, '''')] (st1, lb1))) = Returns 0"
    by blast
  with r show ?thesis by (simp only: w)
qed

text \<open>
  Claim C5 as stated fails: with the algorithm \<open>lc\<close> and a session header that is
  not bound yet, the request goes to the backend at the cursor, which has two active
  connections, and not to the least loaded one, which has none.
\<close>

theorem new_session_ignores_policy:
  "Algorithm ((NewLoadbalancer ''8080'' [0, 1] ''lc'')) = ''lc'' \<and>
   SessionTable (NewLoadbalancer ''8080'' [0, 1] ''lc'') ''s1'' = None \<and>
   GetLeastConnServer
     (\<lambda>r. \<lparr>Address = ''http://127.0.0.1:9000/'', IsAlive = True,
            ActiveConn = (if r = 0 then 2 else 0)\<rparr>)
     (NewLoadbalancer ''8080'' [0, 1] ''lc'') = Some 1 \<and>
   fst (ServeProxy 0 ''s1''
     (\<lambda>r. \<lparr>Address = ''http://127.0.0.1:9000/'', IsAlive = True,
            ActiveConn = (if r = 0 then 2 else 0)\<rparr>,
      NewLoadbalancer ''8080'' [0, 1] ''lc'')) = Returns 0"
  by (simp add: ServeProxy_def selectTarget_def withSome_def GetNextAvailableServer_def
        GetLeastConnServer_def serverAt_def go_rem_def NewLoadbalancer_def Let_def)

text \<open>
  Claim C8 against the code. The store after \<open>ServeProxy\<close> is the store before
  with the counter of the chosen backend incremented; nothing decrements it. On the
  load balancer that \<open>main\<close> builds, the first request without session header is
  forwarded to backend 0, whose counter is 0 before the request and 1 after it;
  \<open>DecActiveConn\<close>, which the source defines and does not call, would bring it back
  to 0.
\<close>

theorem ServeProxy_never_decrements:
  "fst (snd (ServeProxy fuel sessionID (st, lb))) =
     (case fst (ServeProxy fuel sessionID (st, lb)) of
        Returns s \<Rightarrow> IncActiveConn st s
      | Panics e \<Rightarrow> st
      | NoReturn \<Rightarrow> st) \<and>
   ServeProxy 0 '''' (main_store, main_lb) = (Returns 0, IncActiveConn main_store 0, main_lb) \<and>
   ActiveConn (main_store 0) = 0 \<and>
   ActiveConn (IncActiveConn main_store 0 0) = 1 \<and>
   ActiveConn (DecActiveConn (IncActiveConn main_store 0) 0 0) = 0"
proof -
  have "fst (snd (ServeProxy fuel sessionID (st, lb))) =
     (case fst (ServeProxy fuel sessionID (st, lb)) of
        Returns s \<Rightarrow> IncActiveConn st s
      | Panics e \<Rightarrow> st
      | NoReturn \<Rightarrow> st)"
    by (simp add: ServeProxy_def split: prod.splits result.splits option.splits)
  moreover have "ServeProxy 0 '''' (main_store, main_lb) =
      (Returns 0, IncActiveConn main_store 0, main_lb)"
    by (simp add: ServeProxy_def selectTarget_def GetLeastConnServer_def main_lb_def
          main_store_def NewLoadbalancer_def NewServer_def)
  moreover have "ActiveConn (main_store 0) = 0"
    by (simp add: main_store_def NewServer_def)
  moreover have "ActiveConn (IncActiveConn main_store 0 0) = 1"
    by (simp add: IncActiveConn_def main_store_def NewServer_def wrap64_def)
  moreover have "ActiveConn (DecActiveConn (IncActiveConn main_store 0) 0 0) = 0"
    by (simp add: IncActiveConn_def DecActiveConn_def main_store_def NewServer_def wrap64_def)
  ultimately show ?thesis by blast
qed


end
